theory Spec2Isabelle
  imports Complex_Main "HOL-Library.List_Lexorder" "HOL-Library.Char_ord"
begin

section \<open>utils/PackageTable.cpp\<close>

text \<open>
  \<^verbatim>\<open>PackageTable\<close> keeps a set of package names (\<^verbatim>\<open>m_table\<close>) and an iterator into it
  (\<^verbatim>\<open>m_current\<close>). An \<^verbatim>\<open>index\<close> is a \<^verbatim>\<open>const_iterator\<close> of the set; two iterators of a
  set are equal exactly when they designate the same element, so an index is modelled by
  the name it designates.
\<close>

type_synonym index = string

record PackageTable =
  m_table :: "string set"
  m_current :: index

datatype ArgError = ArgError string

text \<open>The constructor inserts the empty name and makes it current.\<close>

definition PackageTable_new :: PackageTable where
  "PackageTable_new = \<lparr> m_table = {''''}, m_current = '''' \<rparr>"

text \<open>
  \<^verbatim>\<open>current(package)\<close>: \<^verbatim>\<open>r = m_table.insert(package)\<close>; \<^verbatim>\<open>r.second\<close> is true exactly
  when the name was not in the set before; only then \<^verbatim>\<open>m_current = r.first\<close>.
\<close>

definition current :: "string \<Rightarrow> PackageTable \<Rightarrow> PackageTable" where
  "current package pt =
     (let second = (package \<notin> m_table pt);
          pt1 = pt\<lparr> m_table := insert package (m_table pt) \<rparr>
      in if second then pt1\<lparr> m_current := package \<rparr> else pt1)"

text \<open>\<^verbatim>\<open>get(package)\<close> returns \<^verbatim>\<open>m_table.insert(package).first\<close>.\<close>

definition get :: "string \<Rightarrow> PackageTable \<Rightarrow> index \<times> PackageTable" where
  "get package pt = (package, pt\<lparr> m_table := insert package (m_table pt) \<rparr>)"

text \<open>
  \<^verbatim>\<open>remove(i)\<close> throws when \<^verbatim>\<open>m_current == i\<close>, before anything is changed; otherwise
  it erases the element. The result is the exception raised, if any, and the table as the
  call leaves it.
\<close>

definition remove :: "index \<Rightarrow> PackageTable \<Rightarrow> ArgError option \<times> PackageTable" where
  "remove i pt =
     (if m_current pt = i
      then (Some (ArgError ''PackageTable: Cannot remove currrent package''), pt)
      else (None, pt\<lparr> m_table := m_table pt - {i} \<rparr>))"

section \<open>vpz/Condition.cpp\<close>

text \<open>
  A \<^verbatim>\<open>Condition\<close> is a \<^verbatim>\<open>std::map\<close> from port names to value sets (\<^verbatim>\<open>value::Set\<close>, an
  ordered collection filled by \<^verbatim>\<open>addValue\<close>), with a name and the name of the port added
  last. The values themselves are opaque.
\<close>

record 'v Condition =
  ports :: "string \<rightharpoonup> 'v list"
  m_name :: string
  m_last_port :: string

definition Condition_new :: "string \<Rightarrow> 'v Condition" where
  "Condition_new name = \<lparr> ports = Map.empty, m_name = name, m_last_port = '''' \<rparr>"

text \<open>
  \<^verbatim>\<open>add(portname)\<close>: an absent port is inserted with a fresh empty set
  (\<^verbatim>\<open>SetFactory::create()\<close>); \<^verbatim>\<open>m_last_port\<close> is assigned in both cases.
\<close>

definition add :: "string \<Rightarrow> 'v Condition \<Rightarrow> 'v Condition" where
  "add portname c =
     (let c1 = (if ports c portname = None
                then c\<lparr> ports := (ports c)(portname \<mapsto> []) \<rparr> else c)
      in c1\<lparr> m_last_port := portname \<rparr>)"

definition del :: "string \<Rightarrow> 'v Condition \<Rightarrow> 'v Condition" where
  "del portname c = c\<lparr> ports := (ports c)(portname := None) \<rparr>"

text \<open>
  \<^verbatim>\<open>addValueToPort(portname, value)\<close>: an absent port is inserted with the one-value set
  and becomes the last port; on an existing port the value is appended and
  \<^verbatim>\<open>m_last_port\<close> is left alone.
\<close>

definition addValueToPort :: "string \<Rightarrow> 'v \<Rightarrow> 'v Condition \<Rightarrow> 'v Condition" where
  "addValueToPort portname v c =
     (case ports c portname of
        None \<Rightarrow> c\<lparr> ports := (ports c)(portname \<mapsto> [v]), m_last_port := portname \<rparr>
      | Some vs \<Rightarrow> c\<lparr> ports := (ports c)(portname \<mapsto> vs @ [v]) \<rparr>)"

section \<open>devs/Coordinator.cpp: data\<close>

text \<open>
  Modelled from the spec: Time (Time.hpp is not among the sources), a real number; the
  infinite time of an empty table is \<open>None\<close> where it occurs. Objects are designated by
  their addresses: a \<^verbatim>\<open>Simulator*\<close> or \<^verbatim>\<open>graph::AtomicModel*\<close> is a natural number and \<open>0\<close> is the null
  pointer, which \<^verbatim>\<open>getModel\<close> returns for a model without a simulator.
\<close>

type_synonym Time = real
type_synonym Simulator = nat
type_synonym AtomicModel = nat

text \<open>
  Modelled from the spec: the event classes (InternalEvent.hpp and its siblings are not
  among the sources). An \<^verbatim>\<open>InternalEvent\<close> has a scheduled time and the simulator it
  targets.
\<close>

record InternalEvent =
  ie_time :: Time
  ie_model :: Simulator

text \<open>
  Modelled from the spec: an \<^verbatim>\<open>ExternalEvent\<close> carries its time, its source simulator
  (\<^verbatim>\<open>setModel\<close>) and source port, its destination simulator and port, and an attribute
  map. A \<^verbatim>\<open>RequestEvent\<close> is an ExternalEvent whose \<^verbatim>\<open>isRequest()\<close> answers true.
\<close>

record ExternalEvent =
  ee_time :: Time
  ee_model :: Simulator
  ee_portName :: string
  ee_target :: Simulator
  ee_targetPort :: string
  ee_isRequest :: bool
  ee_attributes :: "(string \<times> int) list"

text \<open>
  Modelled from the spec: an \<^verbatim>\<open>ObservationEvent\<close> has the observation time, the target
  simulator, the view name and the port name.
\<close>

record ObservationEvent =
  oe_time :: Time
  oe_model :: Simulator
  oe_viewName :: string
  oe_portName :: string

text \<open>
  The answers of \<^verbatim>\<open>confluentTransitions\<close> that the \<^verbatim>\<open>switch\<close> of \<^verbatim>\<open>run\<close> handles.
\<close>

datatype EventType = INTERNAL | EXTERNAL

text \<open>
  Modelled from the spec: \<^verbatim>\<open>EventBagModel\<close> (declared in EventTable.hpp, not among the
  sources): for one simulator at one instant, at most one internal event, the external
  events and the request events, with the emptiness tests \<^verbatim>\<open>emptyInternal\<close>,
  \<^verbatim>\<open>emptyExternal\<close> and \<^verbatim>\<open>empty\<close> that \<^verbatim>\<open>run\<close> calls.
\<close>

record EventBagModel =
  bag_internal :: "InternalEvent option"
  bag_externals :: "ExternalEvent list"
  bag_requests :: "ExternalEvent list"

definition empty_bag :: EventBagModel where
  "empty_bag = \<lparr> bag_internal = None, bag_externals = [], bag_requests = [] \<rparr>"

definition emptyInternal :: "EventBagModel \<Rightarrow> bool" where
  "emptyInternal b = (bag_internal b = None)"

definition emptyExternal :: "EventBagModel \<Rightarrow> bool" where
  "emptyExternal b = (bag_externals b = [])"

definition emptyRequest :: "EventBagModel \<Rightarrow> bool" where
  "emptyRequest b = (bag_requests b = [])"

definition bag_empty :: "EventBagModel \<Rightarrow> bool" where
  "bag_empty b = (emptyInternal b \<and> emptyExternal b \<and> emptyRequest b)"

section \<open>The EventTable\<close>

text \<open>
  Modelled from the spec: the \<^verbatim>\<open>EventTable\<close> and its \<^verbatim>\<open>CompleteEventBagModel\<close>, whose
  source (EventTable.cpp) is not among the sources. The table keeps the pending internal
  and observation events keyed by their time, and the CompleteEventBagModel of the current
  instant: one bag per simulator (\<open>et_bags\<close>, in insertion order) and the observation
  queue of the instant (\<open>et_states\<close>), held apart. External and request events are
  inserted at the current time, that is into the bag of their target in the current
  CompleteEventBagModel.
\<close>

record EventTable =
  et_currentTime :: Time
  et_internalEventList :: "InternalEvent list"
  et_observationEventList :: "ObservationEvent list"
  et_bags :: "(Simulator \<times> EventBagModel) list"
  et_states :: "ObservationEvent list"

text \<open>
  Modelled from the spec: the times the table is keyed by.
\<close>

definition pending_times :: "EventTable \<Rightarrow> Time list" where
  "pending_times et =
     map ie_time (et_internalEventList et) @ map oe_time (et_observationEventList et)"

text \<open>
  Modelled from the spec: \<^verbatim>\<open>topEvent()\<close>, the earliest pending time; \<open>None\<close> stands for
  infinity.
\<close>

definition topEvent :: "EventTable \<Rightarrow> Time option" where
  "topEvent et = (case pending_times et of [] \<Rightarrow> None | t # ts \<Rightarrow> Some (fold min ts t))"

text \<open>
  Modelled from the spec: the bag of a simulator in the current CompleteEventBagModel (empty
  when it has none), and the insertion into the bag of a simulator, which makes the bag
  when there is none.
\<close>

fun bag_of :: "Simulator \<Rightarrow> (Simulator \<times> EventBagModel) list \<Rightarrow> EventBagModel" where
  "bag_of s [] = empty_bag"
| "bag_of s ((s', b) # bs) = (if s' = s then b else bag_of s bs)"

fun bag_update ::
  "Simulator \<Rightarrow> (EventBagModel \<Rightarrow> EventBagModel) \<Rightarrow> (Simulator \<times> EventBagModel) list
     \<Rightarrow> (Simulator \<times> EventBagModel) list" where
  "bag_update s f [] = [(s, f empty_bag)]"
| "bag_update s f ((s', b) # bs) =
     (if s' = s then (s', f b) # bs else (s', b) # bag_update s f bs)"

text \<open>
  Modelled from the spec: \<^verbatim>\<open>putInternalEvent\<close> and \<^verbatim>\<open>putObservationEvent\<close> schedule an
  event at its own time; \<^verbatim>\<open>putExternalEvent\<close> and \<^verbatim>\<open>putRequestEvent\<close> insert at the
  current time, into the bag of the event's target.
\<close>

definition addInternal :: "InternalEvent \<Rightarrow> (Simulator \<times> EventBagModel) list
     \<Rightarrow> (Simulator \<times> EventBagModel) list" where
  "addInternal e bs = bag_update (ie_model e) (\<lambda>b. b\<lparr> bag_internal := Some e \<rparr>) bs"

definition putInternalEvent :: "InternalEvent \<Rightarrow> EventTable \<Rightarrow> EventTable" where
  "putInternalEvent e et = et\<lparr> et_internalEventList := et_internalEventList et @ [e] \<rparr>"

definition putObservationEvent :: "ObservationEvent \<Rightarrow> EventTable \<Rightarrow> EventTable" where
  "putObservationEvent e et =
     et\<lparr> et_observationEventList := et_observationEventList et @ [e] \<rparr>"

definition putExternalEvent :: "ExternalEvent \<Rightarrow> EventTable \<Rightarrow> EventTable" where
  "putExternalEvent e et =
     et\<lparr> et_bags := bag_update (ee_target e)
                       (\<lambda>b. b\<lparr> bag_externals := bag_externals b @ [e] \<rparr>) (et_bags et) \<rparr>"

definition putRequestEvent :: "ExternalEvent \<Rightarrow> EventTable \<Rightarrow> EventTable" where
  "putRequestEvent e et =
     et\<lparr> et_bags := bag_update (ee_target e)
                       (\<lambda>b. b\<lparr> bag_requests := bag_requests b @ [e] \<rparr>) (et_bags et) \<rparr>"

text \<open>
  Modelled from the spec: \<^verbatim>\<open>popEvent()\<close>. Every pending event whose time is the current
  minimum moves into the CompleteEventBagModel, the internal events into the bag of their
  simulator and the observation events into the observation queue; the table's current
  time becomes that minimum. With nothing pending the CompleteEventBagModel is returned as
  it is.
\<close>

definition popEvent :: "EventTable \<Rightarrow> EventTable" where
  "popEvent et =
     (case topEvent et of
        None \<Rightarrow> et
      | Some t \<Rightarrow>
          et\<lparr> et_currentTime := t,
              et_internalEventList := filter (\<lambda>e. ie_time e \<noteq> t) (et_internalEventList et),
              et_observationEventList :=
                filter (\<lambda>e. oe_time e \<noteq> t) (et_observationEventList et),
              et_bags := fold addInternal
                           (filter (\<lambda>e. ie_time e = t) (et_internalEventList et)) (et_bags et),
              et_states := et_states et
                           @ filter (\<lambda>e. oe_time e = t) (et_observationEventList et) \<rparr>)"

text \<open>
  Modelled from the spec: \<^verbatim>\<open>delModelEvents(sim)\<close> removes every event that mentions \<open>sim\<close>
  as source or destination, pending or in the current CompleteEventBagModel.
\<close>

definition mentions :: "Simulator \<Rightarrow> ExternalEvent \<Rightarrow> bool" where
  "mentions s e = (ee_model e = s \<or> ee_target e = s)"

definition purge_bag :: "Simulator \<Rightarrow> EventBagModel \<Rightarrow> EventBagModel" where
  "purge_bag s b =
     b\<lparr> bag_internal := (case bag_internal b of
                            None \<Rightarrow> None
                          | Some e \<Rightarrow> if ie_model e = s then None else Some e),
        bag_externals := filter (\<lambda>e. \<not> mentions s e) (bag_externals b),
        bag_requests := filter (\<lambda>e. \<not> mentions s e) (bag_requests b) \<rparr>"

definition delModelEvents :: "Simulator \<Rightarrow> EventTable \<Rightarrow> EventTable" where
  "delModelEvents s et =
     et\<lparr> et_internalEventList := filter (\<lambda>e. ie_model e \<noteq> s) (et_internalEventList et),
         et_observationEventList :=
           filter (\<lambda>e. oe_model e \<noteq> s) (et_observationEventList et),
         et_bags := map (\<lambda>(s', b). (s', purge_bag s b))
                      (filter (\<lambda>(s', b). s' \<noteq> s) (et_bags et)),
         et_states := filter (\<lambda>e. oe_model e \<noteq> s) (et_states et) \<rparr>"

text \<open>
  Modelled from the spec: the queries of the CompleteEventBagModel that \<^verbatim>\<open>run\<close> calls:
  \<^verbatim>\<open>emptyBag()\<close> (no bag holds an event), \<^verbatim>\<open>emptyStates()\<close> and \<^verbatim>\<open>empty()\<close>.
\<close>

definition emptyBag :: "EventTable \<Rightarrow> bool" where
  "emptyBag et = list_all (\<lambda>(s, b). bag_empty b) (et_bags et)"

definition emptyStates :: "EventTable \<Rightarrow> bool" where
  "emptyStates et = (et_states et = [])"

definition bags_empty :: "EventTable \<Rightarrow> bool" where
  "bags_empty et = (emptyBag et \<and> emptyStates et)"

text \<open>
  Modelled from the spec: \<^verbatim>\<open>topBag()\<close>, the first bag that still holds an event, and
  \<^verbatim>\<open>clear()\<close>.
\<close>

fun first_bag :: "(Simulator \<times> EventBagModel) list \<Rightarrow> Simulator option" where
  "first_bag [] = None"
| "first_bag ((s, b) # bs) = (if bag_empty b then first_bag bs else Some s)"

definition topBag :: "EventTable \<Rightarrow> Simulator option" where
  "topBag et = first_bag (et_bags et)"

definition bags_clear :: "EventTable \<Rightarrow> EventTable" where
  "bags_clear et = et\<lparr> et_bags := [], et_states := [] \<rparr>"


section \<open>The coordinator's state\<close>

datatype error = InternalError | NullPointer

text \<open>
  A call returns, throws, or exhausts the fuel that bounds the loops of \<^verbatim>\<open>run\<close> (events
  routed within an instant re-enter the bags being drained, so the loops need not end).
\<close>

datatype 'a outcome = Returns 'a | Throws error | OutOfFuel

fun obind :: "'a outcome \<Rightarrow> ('a \<Rightarrow> 'b outcome) \<Rightarrow> 'b outcome" where
  "obind (Returns x) f = f x"
| "obind (Throws e) f = Throws e"
| "obind OutOfFuel f = OutOfFuel"

datatype ViewType = TIMED | EVENT | FINISH

text \<open>
  Modelled from the spec: a view (View.hpp is not among the sources): its name, its kind and
  its observables, the (simulator, port) pairs.
\<close>

record View =
  v_name :: string
  v_type :: ViewType
  v_observables :: "(Simulator \<times> string) list"

text \<open>
  The calls the coordinator makes on its collaborators are recorded, in order, in a log
  kept beside the state; the log is what the ordering properties are stated on.
\<close>

datatype Action =
    CallConfluent Simulator
  | CallOutput Simulator Time
  | CallInternalTransition Simulator InternalEvent
  | CallExternalTransition Simulator Time
  | CallRequest Simulator ExternalEvent
  | CallObservation ObservationEvent
  | NotifyEventView string ObservationEvent
  | PutInternal InternalEvent
  | PutExternal ExternalEvent
  | PutRequest ExternalEvent
  | PutObservation ObservationEvent
  | DeleteEvent ExternalEvent
  | ClearSimulator Simulator
  | DestroySimulator Simulator

text \<open>
  The fields of the coordinator. \<open>m_modelList\<close> maps a graph node to its simulator;
  \<open>m_viewList\<close> holds the entries of the \<^verbatim>\<open>std::map\<close> of the views, in any order
  (see \<open>views_by_name\<close> below for the map it stands for); \<open>structure_of\<close> is \<^verbatim>\<open>Simulator::getStructure()\<close>;
  \<open>connections\<close> is the connection graph, a list of ((source model, port),
  (destination model, port)); \<open>world\<close> is the state of the atomic models and of the
  stream writers, opaque to the coordinator; \<open>trace\<close> is the log of the calls.
\<close>

record 'w Coordinator =
  m_currentTime :: Time
  m_modelList :: "AtomicModel \<rightharpoonup> Simulator"
  m_viewList :: "View list"
  m_eventTable :: EventTable
  m_deletedSimulator :: "Simulator list"
  m_toDelete :: nat
  structure_of :: "Simulator \<Rightarrow> AtomicModel"
  connections :: "((AtomicModel \<times> string) \<times> (AtomicModel \<times> string)) list"
  world :: 'w
  trace :: "Action list"

definition logged :: "Action list \<Rightarrow> 'w Coordinator \<Rightarrow> 'w Coordinator" where
  "logged as c = c\<lparr> trace := trace c @ as \<rparr>"

text \<open>The simulators on which \<^verbatim>\<open>delete\<close> has been called, in order.\<close>

fun destroyed_in :: "Action list \<Rightarrow> Simulator list" where
  "destroyed_in [] = []"
| "destroyed_in (DestroySimulator s # as) = s # destroyed_in as"
| "destroyed_in (a # as) = destroyed_in as"

definition destroyed :: "'w Coordinator \<Rightarrow> Simulator list" where
  "destroyed c = destroyed_in (trace c)"

text \<open>
  An executive model edits the graph from inside its own callbacks, through the
  coordinator's \<^verbatim>\<open>delModel\<close>. A callback hands back, with its result, the executive calls
  it made, in order; the coordinator's state has seen them all when the callback returns.
  \<open>DelModel\<close> names the atomic node that \<^verbatim>\<open>findModel\<close> resolved the name to (\<open>0\<close> when
  it found none). Creating models goes through the ModelFactory and deleting a coupled
  model through the graph library, neither of which is among the sources; they are left
  out.
\<close>

datatype Exec = DelModel AtomicModel

text \<open>
  The atomic models and the views are parameters: the callbacks of the simulators, which
  read and change \<open>world\<close>, and \<^verbatim>\<open>View::processObservationEvent\<close>, which may answer a
  follow-up observation event.
\<close>

record 'w Dynamics =
  sim_confluentTransitions ::
    "'w \<Rightarrow> Simulator \<Rightarrow> InternalEvent \<Rightarrow> ExternalEvent list \<Rightarrow> EventType"
  sim_output :: "'w \<Rightarrow> Simulator \<Rightarrow> Time \<Rightarrow> ExternalEvent list \<times> Exec list \<times> 'w"
  sim_internalTransition ::
    "'w \<Rightarrow> Simulator \<Rightarrow> InternalEvent \<Rightarrow> InternalEvent option \<times> Exec list \<times> 'w"
  sim_externalTransition ::
    "'w \<Rightarrow> Simulator \<Rightarrow> ExternalEvent list \<Rightarrow> Time
       \<Rightarrow> InternalEvent option \<times> Exec list \<times> 'w"
  sim_request ::
    "'w \<Rightarrow> Simulator \<Rightarrow> ExternalEvent \<Rightarrow> Time \<Rightarrow> ExternalEvent list \<times> Exec list \<times> 'w"
  sim_observation :: "'w \<Rightarrow> Simulator \<Rightarrow> ObservationEvent \<Rightarrow> ObservationEvent option"
  view_processObservationEvent ::
    "'w \<Rightarrow> string \<Rightarrow> ObservationEvent option \<Rightarrow> ObservationEvent option \<times> 'w"

section \<open>Coordinator: the functions\<close>

text \<open>
  \<^verbatim>\<open>init\<close>: after the models are added, \<^verbatim>\<open>m_toDelete = 0\<close>. \<^verbatim>\<open>getNextTime\<close>,
  \<^verbatim>\<open>getModel\<close> (null for a model without simulator) and \<^verbatim>\<open>getView\<close> are lookups.
\<close>

definition init :: "'w Coordinator \<Rightarrow> 'w Coordinator" where
  "init c = c\<lparr> m_toDelete := 0 \<rparr>"

definition getNextTime :: "'w Coordinator \<Rightarrow> Time option" where
  "getNextTime c = topEvent (m_eventTable c)"

definition getModel :: "'w Coordinator \<Rightarrow> AtomicModel \<Rightarrow> Simulator" where
  "getModel c model = (case m_modelList c model of None \<Rightarrow> 0 | Some s \<Rightarrow> s)"

definition getView :: "'w Coordinator \<Rightarrow> string \<Rightarrow> View option" where
  "getView c name = find (\<lambda>v. v_name v = name) (m_viewList c)"

text \<open>
  The view maps are \<^verbatim>\<open>std::map\<close>s keyed by the name of the view. Of two views of the
  same name the map holds the one added first (\<^verbatim>\<open>addView\<close> ignores a name it has), and
  an iterator runs through the map in the order of the names, which for \<^verbatim>\<open>std::string\<close>
  is the lexicographic order of the bytes. \<^verbatim>\<open>m_eventViewList\<close> holds the views of the map
  that are event views.
\<close>

fun first_by_name :: "string list \<Rightarrow> View list \<Rightarrow> View list" where
  "first_by_name seen [] = []"
| "first_by_name seen (v # vs) =
     (if v_name v \<in> set seen then first_by_name seen vs
      else v # first_by_name (v_name v # seen) vs)"

definition views_by_name :: "View list \<Rightarrow> View list" where
  "views_by_name vs = sort_key v_name (first_by_name [] vs)"

definition m_eventViewList :: "'w Coordinator \<Rightarrow> View list" where
  "m_eventViewList c = filter (\<lambda>v. v_type v = EVENT) (views_by_name (m_viewList c))"

text \<open>
  Modelled from the spec: \<^verbatim>\<open>updateCurrentTime\<close> (inline in Coordinator.hpp, not among
  the sources) assigns the current time; \<^verbatim>\<open>View::removeObservable\<close> drops the
  subscriptions of a simulator.
\<close>

definition updateCurrentTime :: "Time \<Rightarrow> 'w Coordinator \<Rightarrow> 'w Coordinator" where
  "updateCurrentTime t c = c\<lparr> m_currentTime := t \<rparr>"

definition removeObservable :: "Simulator \<Rightarrow> View \<Rightarrow> View" where
  "removeObservable s v = v\<lparr> v_observables := filter (\<lambda>(s', p). s' \<noteq> s) (v_observables v) \<rparr>"

text \<open>
  Modelled from the spec: the graph library. \<^verbatim>\<open>parent->delModel(atom)\<close> takes the node
  and the connections that touch it out of the graph; \<^verbatim>\<open>getTargetPortList\<close> answers the
  destinations connected to a port of a node.
\<close>

definition graph_delModel ::
  "AtomicModel \<Rightarrow> ((AtomicModel \<times> string) \<times> (AtomicModel \<times> string)) list
     \<Rightarrow> ((AtomicModel \<times> string) \<times> (AtomicModel \<times> string)) list" where
  "graph_delModel atom cs = filter (\<lambda>((m, p), (m', p')). m \<noteq> atom \<and> m' \<noteq> atom) cs"

definition getTargetPortList ::
  "((AtomicModel \<times> string) \<times> (AtomicModel \<times> string)) list \<Rightarrow> AtomicModel \<Rightarrow> string
     \<Rightarrow> (AtomicModel \<times> string) list" where
  "getTargetPortList cs m p = map snd (filter (\<lambda>(src, dst). src = (m, p)) cs)"

text \<open>
  \<^verbatim>\<open>delAtomicModel(parent, atom)\<close>. The assertions throw on a null node and on a node
  without simulator. Then the simulator leaves the model table, every view drops it, its
  events leave the table, it is cleared (\<^verbatim>\<open>Simulator::clear\<close>, logged) and pushed onto
  \<^verbatim>\<open>m_deletedSimulator\<close>, and the node leaves the graph.
\<close>

definition delAtomicModel :: "AtomicModel \<Rightarrow> 'w Coordinator \<Rightarrow> 'w Coordinator outcome" where
  "delAtomicModel atom c =
     (if atom = 0 then Throws InternalError
      else case m_modelList c atom of
        None \<Rightarrow> Throws InternalError
      | Some satom \<Rightarrow>
          Returns (c\<lparr> m_modelList := (m_modelList c)(atom := None),
                      m_viewList := map (removeObservable satom) (m_viewList c),
                      m_eventTable := delModelEvents satom (m_eventTable c),
                      m_deletedSimulator := m_deletedSimulator c @ [satom],
                      connections := graph_delModel atom (connections c),
                      trace := trace c @ [ClearSimulator satom] \<rparr>))"

text \<open>
  \<^verbatim>\<open>delModel(parent, modelname)\<close>, for a name that \<^verbatim>\<open>findModel\<close> resolves to an atomic
  node (\<open>0\<close> when it finds none, and \<^verbatim>\<open>AssertI(mdl)\<close> throws).
\<close>

definition delModel :: "AtomicModel \<Rightarrow> 'w Coordinator \<Rightarrow> 'w Coordinator outcome" where
  "delModel mdl c = (if mdl = 0 then Throws InternalError else delAtomicModel mdl c)"

fun apply_execs :: "Exec list \<Rightarrow> 'w Coordinator \<Rightarrow> 'w Coordinator outcome" where
  "apply_execs [] c = Returns c"
| "apply_execs (DelModel mdl # xs) c = obind (delModel mdl c) (apply_execs xs)"

text \<open>
  Modelled from the spec: the copy constructors \<^verbatim>\<open>ExternalEvent(event, dst, port)\<close> and
  \<^verbatim>\<open>RequestEvent(event, dst, port)\<close> make a fresh event bound to the destination
  simulator and port.
\<close>

definition copy_event :: "ExternalEvent \<Rightarrow> Simulator \<Rightarrow> string \<Rightarrow> ExternalEvent" where
  "copy_event e dst port = e\<lparr> ee_target := dst, ee_targetPort := port \<rparr>"

text \<open>
  \<^verbatim>\<open>dispatchExternalEvent\<close>: for every event of the list, the source is set, the
  destinations of its port are looked up, a copy is put for each destination (as a
  request event when the event is a request, as an external event otherwise) and the
  event is deleted.
\<close>

definition route_one ::
  "ExternalEvent \<Rightarrow> AtomicModel \<times> string \<Rightarrow> 'w Coordinator \<Rightarrow> 'w Coordinator" where
  "route_one e jt c =
     (let dst = getModel c (fst jt);
          e' = copy_event e dst (snd jt)
      in if ee_isRequest e
         then logged [PutRequest e'] (c\<lparr> m_eventTable := putRequestEvent e' (m_eventTable c) \<rparr>)
         else logged [PutExternal e'] (c\<lparr> m_eventTable := putExternalEvent e' (m_eventTable c) \<rparr>))"

definition dispatch_one ::
  "Simulator \<Rightarrow> ExternalEvent \<Rightarrow> 'w Coordinator \<Rightarrow> 'w Coordinator" where
  "dispatch_one sim ev c =
     (let e = ev\<lparr> ee_model := sim \<rparr>;
          out = getTargetPortList (connections c) (structure_of c sim) (ee_portName e)
      in logged [DeleteEvent e] (fold (route_one e) out c))"

definition dispatchExternalEvent ::
  "ExternalEvent list \<Rightarrow> Simulator \<Rightarrow> 'w Coordinator \<Rightarrow> 'w Coordinator" where
  "dispatchExternalEvent eventList sim c = fold (dispatch_one sim) eventList c"


text \<open>
  Modelled from the spec: the edits of one simulator's bag, \<^verbatim>\<open>delInternal\<close>,
  \<^verbatim>\<open>delExternals\<close> and \<^verbatim>\<open>delRequest\<close>; they change a bag that is there and make none.
\<close>

definition bag_modify ::
  "Simulator \<Rightarrow> (EventBagModel \<Rightarrow> EventBagModel) \<Rightarrow> 'w Coordinator \<Rightarrow> 'w Coordinator" where
  "bag_modify s f c =
     c\<lparr> m_eventTable := (m_eventTable c)
          \<lparr> et_bags := map (\<lambda>(s', b). if s' = s then (s', f b) else (s', b))
                         (et_bags (m_eventTable c)) \<rparr> \<rparr>"

definition delInternal :: "EventBagModel \<Rightarrow> EventBagModel" where
  "delInternal b = b\<lparr> bag_internal := None \<rparr>"

definition delExternals :: "EventBagModel \<Rightarrow> EventBagModel" where
  "delExternals b = b\<lparr> bag_externals := [] \<rparr>"

definition delRequest :: "EventBagModel \<Rightarrow> EventBagModel" where
  "delRequest b = b\<lparr> bag_requests := [] \<rparr>"

definition current_bag :: "'w Coordinator \<Rightarrow> Simulator \<Rightarrow> EventBagModel" where
  "current_bag c s = bag_of s (et_bags (m_eventTable c))"

text \<open>
  \<^verbatim>\<open>processEventView(model, event)\<close>: for every event view, in the order of
  \<^verbatim>\<open>m_eventViewList\<close>, and every port it observes on the model (\<^verbatim>\<open>View::get\<close>, modelled
  from the spec), an observation event is built (at the internal event's time, or at the
  current time when there is none), the model answers it and the view processes the
  answer.
\<close>

definition view_get :: "Simulator \<Rightarrow> View \<Rightarrow> string list" where
  "view_get s v = map snd (filter (\<lambda>(s', p). s' = s) (v_observables v))"

definition notify_one ::
  "'w Dynamics \<Rightarrow> Simulator \<Rightarrow> Time \<Rightarrow> View \<Rightarrow> string \<Rightarrow> 'w Coordinator \<Rightarrow> 'w Coordinator"
  where
  "notify_one dyn model t v port c =
     (let newevent = \<lparr> oe_time = t, oe_model = model,
                       oe_viewName = v_name v, oe_portName = port \<rparr>;
          eventvalue = sim_observation dyn (world c) model newevent;
          r = view_processObservationEvent dyn (world c) (v_name v) eventvalue
      in logged [NotifyEventView (v_name v) newevent] (c\<lparr> world := snd r \<rparr>))"

definition processEventView ::
  "'w Dynamics \<Rightarrow> Simulator \<Rightarrow> InternalEvent option \<Rightarrow> 'w Coordinator \<Rightarrow> 'w Coordinator"
  where
  "processEventView dyn model event c =
     (let t = (case event of None \<Rightarrow> m_currentTime c | Some ev \<Rightarrow> ie_time ev)
      in fold (\<lambda>v. fold (notify_one dyn model t v) (view_get model v))
              (m_eventViewList c) c)"

definition put_internal_opt :: "InternalEvent option \<Rightarrow> 'w Coordinator \<Rightarrow> 'w Coordinator" where
  "put_internal_opt internal c =
     (case internal of
        None \<Rightarrow> c
      | Some i \<Rightarrow> logged [PutInternal i]
                    (c\<lparr> m_eventTable := putInternalEvent i (m_eventTable c) \<rparr>))"

text \<open>
  \<^verbatim>\<open>processInternalEvent(sim, modelbag)\<close>. Its first block calls \<^verbatim>\<open>output\<close> at the
  current time and routes the result; its second block calls the internal transition on
  the event taken from the bag and puts the internal event it answers, if any; then the
  event views are notified.
\<close>

definition output_block ::
  "'w Dynamics \<Rightarrow> Simulator \<Rightarrow> 'w Coordinator \<Rightarrow> 'w Coordinator outcome" where
  "output_block dyn sim c =
     (let r = sim_output dyn (world c) sim (m_currentTime c);
          c1 = logged [CallOutput sim (m_currentTime c)] (c\<lparr> world := snd (snd r) \<rparr>)
      in obind (apply_execs (fst (snd r)) c1) (\<lambda>c2.
           Returns (dispatchExternalEvent (fst r) sim c2)))"

definition internal_block ::
  "'w Dynamics \<Rightarrow> Simulator \<Rightarrow> InternalEvent \<Rightarrow> 'w Coordinator \<Rightarrow> 'w Coordinator outcome"
  where
  "internal_block dyn sim ev c =
     (let i = sim_internalTransition dyn (world c) sim ev;
          c1 = logged [CallInternalTransition sim ev] (c\<lparr> world := snd (snd i) \<rparr>)
      in obind (apply_execs (fst (snd i)) c1) (\<lambda>c2.
           Returns (put_internal_opt (fst i) c2)))"

definition processInternalEvent ::
  "'w Dynamics \<Rightarrow> Simulator \<Rightarrow> 'w Coordinator \<Rightarrow> 'w Coordinator outcome" where
  "processInternalEvent dyn sim c =
     (case bag_internal (current_bag c sim) of
        None \<Rightarrow> Throws NullPointer
      | Some ev \<Rightarrow>
          obind (output_block dyn sim (bag_modify sim delInternal c)) (\<lambda>c3.
            obind (internal_block dyn sim ev c3) (\<lambda>c6.
              Returns (processEventView dyn sim (Some ev) c6))))"

text \<open>
  \<^verbatim>\<open>processExternalEvents(sim, modelbag)\<close>: the external transition receives the
  external events of the bag and the current time; the internal event it answers, if
  any, is put; the externals are deleted and the event views notified.
\<close>

definition external_block ::
  "'w Dynamics \<Rightarrow> Simulator \<Rightarrow> 'w Coordinator \<Rightarrow> 'w Coordinator outcome" where
  "external_block dyn sim c =
     (let lst = bag_externals (current_bag c sim);
          i = sim_externalTransition dyn (world c) sim lst (m_currentTime c);
          c1 = logged [CallExternalTransition sim (m_currentTime c)]
                 (c\<lparr> world := snd (snd i) \<rparr>)
      in obind (apply_execs (fst (snd i)) c1) (\<lambda>c2.
           Returns (put_internal_opt (fst i) c2)))"

definition processExternalEvents ::
  "'w Dynamics \<Rightarrow> Simulator \<Rightarrow> 'w Coordinator \<Rightarrow> 'w Coordinator outcome" where
  "processExternalEvents dyn sim c =
     obind (external_block dyn sim c) (\<lambda>c3.
       Returns (processEventView dyn sim None (bag_modify sim delExternals c3)))"

text \<open>
  \<^verbatim>\<open>processRequestEvents(sim, modelbag)\<close>: the request list is traversed as it stands when
  the loop starts; each request is answered and the answers are routed at once. At the
  end the requests of the bag are deleted.
\<close>

definition request_one ::
  "'w Dynamics \<Rightarrow> Simulator \<Rightarrow> ExternalEvent \<Rightarrow> 'w Coordinator \<Rightarrow> 'w Coordinator outcome"
  where
  "request_one dyn sim ev c =
     (let r = sim_request dyn (world c) sim ev (m_currentTime c);
          c1 = logged [CallRequest sim ev] (c\<lparr> world := snd (snd r) \<rparr>)
      in obind (apply_execs (fst (snd r)) c1) (\<lambda>c2.
           Returns (dispatchExternalEvent (fst r) sim c2)))"

fun request_loop ::
  "'w Dynamics \<Rightarrow> Simulator \<Rightarrow> ExternalEvent list \<Rightarrow> 'w Coordinator \<Rightarrow> 'w Coordinator outcome"
  where
  "request_loop dyn sim [] c = Returns c"
| "request_loop dyn sim (ev # evs) c =
     obind (request_one dyn sim ev c) (request_loop dyn sim evs)"

definition processRequestEvents ::
  "'w Dynamics \<Rightarrow> Simulator \<Rightarrow> 'w Coordinator \<Rightarrow> 'w Coordinator outcome" where
  "processRequestEvents dyn sim c =
     obind (request_loop dyn sim (bag_requests (current_bag c sim)) c) (\<lambda>c1.
       Returns (bag_modify sim delRequest c1))"

text \<open>
  \<^verbatim>\<open>processObservationEvents(bag)\<close>: each observation event of the instant is answered by
  its simulator; a non-null answer is processed by the view it names, and a non-null
  follow-up is put into the event table. The queue is empty at the end.
\<close>

definition put_observation_opt ::
  "ObservationEvent option \<Rightarrow> 'w Coordinator \<Rightarrow> 'w Coordinator" where
  "put_observation_opt event2 c =
     (case event2 of
        None \<Rightarrow> c
      | Some e \<Rightarrow> logged [PutObservation e]
                    (c\<lparr> m_eventTable := putObservationEvent e (m_eventTable c) \<rparr>))"

definition observe_one ::
  "'w Dynamics \<Rightarrow> ObservationEvent \<Rightarrow> 'w Coordinator \<Rightarrow> 'w Coordinator outcome" where
  "observe_one dyn tp c =
     (if oe_model tp = 0 then Throws NullPointer
      else
        (let c1 = logged [CallObservation tp] c
         in case sim_observation dyn (world c) (oe_model tp) tp of
              None \<Rightarrow> Returns c1
            | Some event \<Rightarrow>
                (case getView c1 (oe_viewName event) of
                   None \<Rightarrow> Throws NullPointer
                 | Some v \<Rightarrow>
                     (let r = view_processObservationEvent dyn (world c1) (v_name v)
                                (Some event)
                      in Returns (put_observation_opt (fst r) (c1\<lparr> world := snd r \<rparr>))))))"

fun observe_loop ::
  "'w Dynamics \<Rightarrow> ObservationEvent list \<Rightarrow> 'w Coordinator \<Rightarrow> 'w Coordinator outcome" where
  "observe_loop dyn [] c = Returns c"
| "observe_loop dyn (tp # rest) c = obind (observe_one dyn tp c) (observe_loop dyn rest)"

definition processObservationEvents ::
  "'w Dynamics \<Rightarrow> 'w Coordinator \<Rightarrow> 'w Coordinator outcome" where
  "processObservationEvents dyn c =
     obind (observe_loop dyn (et_states (m_eventTable c)) c) (\<lambda>c1.
       Returns (c1\<lparr> m_eventTable := (m_eventTable c1)\<lparr> et_states := [] \<rparr> \<rparr>))"

text \<open>
  One turn of the inner loop of \<^verbatim>\<open>run\<close> on the bag of simulator \<open>s\<close>. Every branch
  dereferences \<open>s\<close>.
\<close>

definition bag_step :: "'w Dynamics \<Rightarrow> Simulator \<Rightarrow> 'w Coordinator \<Rightarrow> 'w Coordinator outcome"
  where
  "bag_step dyn s c =
     (let bag = current_bag c s
      in if s = 0 then Throws NullPointer
         else if \<not> emptyInternal bag then
           (if \<not> emptyExternal bag then
              (case bag_internal bag of
                 None \<Rightarrow> Throws NullPointer
               | Some ev \<Rightarrow>
                   (case sim_confluentTransitions dyn (world c) s ev (bag_externals bag) of
                      INTERNAL \<Rightarrow> processInternalEvent dyn s (logged [CallConfluent s] c)
                    | EXTERNAL \<Rightarrow> processExternalEvents dyn s (logged [CallConfluent s] c)))
            else processInternalEvent dyn s c)
         else
           (if \<not> emptyExternal bag then processExternalEvents dyn s c
            else processRequestEvents dyn s c))"

text \<open>The inner loop: \<^verbatim>\<open>while (not bag.second.empty())\<close>.\<close>

fun drain_bag ::
  "nat \<Rightarrow> 'w Dynamics \<Rightarrow> Simulator \<Rightarrow> 'w Coordinator \<Rightarrow> 'w Coordinator outcome" where
  "drain_bag 0 dyn s c = OutOfFuel"
| "drain_bag (Suc n) dyn s c =
     (if bag_empty (current_bag c s) then Returns c
      else obind (bag_step dyn s c) (drain_bag n dyn s))"

text \<open>The outer loop: \<^verbatim>\<open>while (not bags.emptyBag())\<close>.\<close>

fun drain_bags :: "nat \<Rightarrow> 'w Dynamics \<Rightarrow> 'w Coordinator \<Rightarrow> 'w Coordinator outcome" where
  "drain_bags 0 dyn c = OutOfFuel"
| "drain_bags (Suc n) dyn c =
     (case topBag (m_eventTable c) of
        None \<Rightarrow> Returns c
      | Some s \<Rightarrow> obind (drain_bag n dyn s c) (drain_bags n dyn))"

text \<open>
  The deletion step of \<^verbatim>\<open>run\<close>: with \<^verbatim>\<open>oldToDelete > 0\<close> the first \<^verbatim>\<open>oldToDelete\<close>
  simulators of \<^verbatim>\<open>m_deletedSimulator\<close> are deleted and erased from the list, and
  \<^verbatim>\<open>m_toDelete\<close> becomes the size of what is left. With \<^verbatim>\<open>oldToDelete = 0\<close> nothing is
  done, and \<^verbatim>\<open>m_toDelete\<close> is not assigned. (A count beyond the size of the list, which
  the iterator arithmetic of the source does not define, takes the whole list.)
\<close>

definition delete_old :: "nat \<Rightarrow> 'w Coordinator \<Rightarrow> 'w Coordinator" where
  "delete_old oldToDelete c =
     (if oldToDelete > 0
      then logged (map DestroySimulator (take oldToDelete (m_deletedSimulator c)))
             (c\<lparr> m_deletedSimulator := drop oldToDelete (m_deletedSimulator c),
                 m_toDelete := length (drop oldToDelete (m_deletedSimulator c)) \<rparr>)
      else c)"

definition pop_bags :: "'w Coordinator \<Rightarrow> 'w Coordinator" where
  "pop_bags c =
     (let c1 = c\<lparr> m_eventTable := popEvent (m_eventTable c) \<rparr>
      in if \<not> bags_empty (m_eventTable c1)
         then updateCurrentTime (et_currentTime (m_eventTable c1)) c1 else c1)"

text \<open>\<^verbatim>\<open>run()\<close>.\<close>

definition run :: "nat \<Rightarrow> 'w Dynamics \<Rightarrow> 'w Coordinator \<Rightarrow> 'w Coordinator outcome" where
  "run fuel dyn c =
     (let oldToDelete = m_toDelete c
      in obind (drain_bags fuel dyn (pop_bags c)) (\<lambda>c3.
           obind (processObservationEvents dyn (delete_old oldToDelete c3)) (\<lambda>c5.
             Returns (c5\<lparr> m_eventTable := bags_clear (m_eventTable c5) \<rparr>))))"

section \<open>Reading the call log\<close>

text \<open>The calls logged between two states, when the second continues the first.\<close>

definition new_actions :: "'w Coordinator \<Rightarrow> 'w Coordinator \<Rightarrow> Action list" where
  "new_actions c c' = drop (length (trace c)) (trace c')"

fun is_clear :: "Action \<Rightarrow> bool" where
  "is_clear (ClearSimulator s) = True"
| "is_clear a = False"

fun is_route :: "Action \<Rightarrow> bool" where
  "is_route (PutExternal e) = True"
| "is_route (PutRequest e) = True"
| "is_route (DeleteEvent e) = True"
| "is_route a = False"

fun is_notify :: "Action \<Rightarrow> bool" where
  "is_notify (NotifyEventView n e) = True"
| "is_notify a = False"

fun is_destroy :: "Action \<Rightarrow> bool" where
  "is_destroy (DestroySimulator s) = True"
| "is_destroy a = False"

fun is_observation :: "Action \<Rightarrow> bool" where
  "is_observation (CallObservation e) = True"
| "is_observation (PutObservation e) = True"
| "is_observation a = False"


definition drain_action :: "Action \<Rightarrow> bool" where
  "drain_action a = (\<not> is_observation a \<and> \<not> is_destroy a)"

definition extends :: "(Action \<Rightarrow> bool) \<Rightarrow> 'w Coordinator \<Rightarrow> 'w Coordinator \<Rightarrow> bool" where
  "extends Q c c' = (\<exists>as. trace c' = trace c @ as \<and> list_all Q as)"

text \<open>
  What the loops over the bags leave alone: the current time, \<^verbatim>\<open>m_toDelete\<close>, the
  simulators already pending deletion; the log grows by calls of the transition phase
  only and the observation queue of the instant only loses events.
\<close>

definition frame :: "'w Coordinator \<Rightarrow> 'w Coordinator \<Rightarrow> bool" where
  "frame c c' =
     (m_currentTime c' = m_currentTime c
      \<and> m_toDelete c' = m_toDelete c
      \<and> extends drain_action c c'
      \<and> (\<exists>ds. m_deletedSimulator c' = m_deletedSimulator c @ ds)
      \<and> set (et_states (m_eventTable c')) \<subseteq> set (et_states (m_eventTable c)))"

section \<open>Times of the scheduled events\<close>

text \<open>
  The collaborators keep time: a transition answers an internal event no earlier than
  the event or the time it was called with, an observation is answered at the time it
  was asked for at the earliest, and a view schedules its follow-up no earlier than the
  observation it processed.
\<close>

definition later_internal :: "Time \<Rightarrow> InternalEvent option \<Rightarrow> bool" where
  "later_internal t i = (case i of None \<Rightarrow> True | Some e \<Rightarrow> t \<le> ie_time e)"

definition later_observation :: "Time \<Rightarrow> ObservationEvent option \<Rightarrow> bool" where
  "later_observation t i = (case i of None \<Rightarrow> True | Some e \<Rightarrow> t \<le> oe_time e)"

definition causal :: "'w Dynamics \<Rightarrow> bool" where
  "causal dyn =
     ((\<forall>w s ev. later_internal (ie_time ev) (fst (sim_internalTransition dyn w s ev)))
      \<and> (\<forall>w s es t. later_internal t (fst (sim_externalTransition dyn w s es t)))
      \<and> (\<forall>w s e. later_observation (oe_time e) (sim_observation dyn w s e))
      \<and> (\<forall>w n e. later_observation (oe_time e)
                     (fst (view_processObservationEvent dyn w n (Some e)))))"

definition pending_ge :: "Time \<Rightarrow> EventTable \<Rightarrow> bool" where
  "pending_ge T et =
     (list_all (\<lambda>e. T \<le> ie_time e) (et_internalEventList et)
      \<and> list_all (\<lambda>e. T \<le> oe_time e) (et_observationEventList et))"

definition bag_ge :: "Time \<Rightarrow> EventBagModel \<Rightarrow> bool" where
  "bag_ge T b = later_internal T (bag_internal b)"

definition bags_ge :: "Time \<Rightarrow> EventTable \<Rightarrow> bool" where
  "bags_ge T et =
     (list_all (\<lambda>sb. bag_ge T (snd sb)) (et_bags et)
      \<and> list_all (\<lambda>e. T \<le> oe_time e) (et_states et))"

text \<open>Within an instant: the current time is \<open>T\<close> and no event is scheduled before it.\<close>

definition times_ge :: "Time \<Rightarrow> 'w Coordinator \<Rightarrow> bool" where
  "times_ge T c =
     (m_currentTime c = T \<and> pending_ge T (m_eventTable c) \<and> bags_ge T (m_eventTable c))"

text \<open>
  Between two calls of \<^verbatim>\<open>run\<close>: the CompleteEventBagModel is clear and no pending event
  is scheduled before the current time.
\<close>

definition table_inv :: "'w Coordinator \<Rightarrow> bool" where
  "table_inv c =
     (et_bags (m_eventTable c) = [] \<and> et_states (m_eventTable c) = []
      \<and> pending_ge (m_currentTime c) (m_eventTable c))"

text \<open>Successive calls of \<^verbatim>\<open>run\<close>.\<close>

fun runs :: "nat \<Rightarrow> nat \<Rightarrow> 'w Dynamics \<Rightarrow> 'w Coordinator \<Rightarrow> 'w Coordinator outcome" where
  "runs 0 fuel dyn c = Returns c"
| "runs (Suc k) fuel dyn c = obind (run fuel dyn c) (runs k fuel dyn)"

text \<open>The observation events answered, in order, among the calls of a log.\<close>

fun observed_in :: "Action list \<Rightarrow> ObservationEvent list" where
  "observed_in [] = []"
| "observed_in (CallObservation e # as) = e # observed_in as"
| "observed_in (a # as) = observed_in as"

fun put_observations_in :: "Action list \<Rightarrow> ObservationEvent list" where
  "put_observations_in [] = []"
| "put_observations_in (PutObservation e # as) = e # put_observations_in as"
| "put_observations_in (a # as) = put_observations_in as"

text \<open>
  What the observation phase leaves alone, and what it adds: calls of the observation
  phase only, and every follow-up it puts is pending in the table afterwards.
\<close>

definition obs_frame :: "'w Coordinator \<Rightarrow> 'w Coordinator \<Rightarrow> bool" where
  "obs_frame c c' =
     (m_currentTime c' = m_currentTime c
      \<and> m_toDelete c' = m_toDelete c
      \<and> m_deletedSimulator c' = m_deletedSimulator c
      \<and> m_modelList c' = m_modelList c
      \<and> m_viewList c' = m_viewList c
      \<and> et_bags (m_eventTable c') = et_bags (m_eventTable c)
      \<and> et_states (m_eventTable c') = et_states (m_eventTable c)
      \<and> et_internalEventList (m_eventTable c') = et_internalEventList (m_eventTable c)
      \<and> extends is_observation c c'
      \<and> set (et_observationEventList (m_eventTable c))
            \<subseteq> set (et_observationEventList (m_eventTable c'))
      \<and> set (put_observations_in (new_actions c c'))
            \<subseteq> set (et_observationEventList (m_eventTable c')))"

section \<open>Reading the routing in the call log\<close>

text \<open>The events deleted, and the events put as external or request events, in order.\<close>

fun deleted_in :: "Action list \<Rightarrow> ExternalEvent list" where
  "deleted_in [] = []"
| "deleted_in (DeleteEvent e # as) = e # deleted_in as"
| "deleted_in (a # as) = deleted_in as"

fun put_events_in :: "Action list \<Rightarrow> ExternalEvent list" where
  "put_events_in [] = []"
| "put_events_in (PutExternal e # as) = e # put_events_in as"
| "put_events_in (PutRequest e # as) = e # put_events_in as"
| "put_events_in (a # as) = put_events_in as"

text \<open>
  The destinations of an event leaving simulator \<open>sim\<close>, and the copies made for them:
  one per structural destination, bound to the destination's simulator and port.
\<close>

definition destinations :: "'w Coordinator \<Rightarrow> Simulator \<Rightarrow> ExternalEvent \<Rightarrow> (AtomicModel \<times> string) list"
  where
  "destinations c sim ev =
     getTargetPortList (connections c) (structure_of c sim) (ee_portName ev)"

definition routed_copy ::
  "'w Coordinator \<Rightarrow> Simulator \<Rightarrow> ExternalEvent \<Rightarrow> AtomicModel \<times> string \<Rightarrow> ExternalEvent" where
  "routed_copy c sim ev d = copy_event (ev\<lparr> ee_model := sim \<rparr>) (getModel c (fst d)) (snd d)"

definition put_action :: "ExternalEvent \<Rightarrow> Action" where
  "put_action e = (if ee_isRequest e then PutRequest e else PutExternal e)"

text \<open>Where a routed event waits: the external or the request list of its target's bag.\<close>

definition waiting_in :: "'w Coordinator \<Rightarrow> ExternalEvent \<Rightarrow> bool" where
  "waiting_in c e =
     (if ee_isRequest e then e \<in> set (bag_requests (current_bag c (ee_target e)))
      else e \<in> set (bag_externals (current_bag c (ee_target e))))"

text \<open>Routing only adds to the bags and leaves the graph and the model table alone.\<close>

definition grows :: "'w Coordinator \<Rightarrow> 'w Coordinator \<Rightarrow> bool" where
  "grows c c' =
     (m_modelList c' = m_modelList c \<and> connections c' = connections c
      \<and> structure_of c' = structure_of c
      \<and> (\<forall>s. set (bag_externals (current_bag c s)) \<subseteq> set (bag_externals (current_bag c' s)))
      \<and> (\<forall>s. set (bag_requests (current_bag c s)) \<subseteq> set (bag_requests (current_bag c' s))))"

text \<open>The kinds of calls that tell the paths of a bag apart.\<close>

fun is_confluent_call :: "Action \<Rightarrow> bool" where
  "is_confluent_call (CallConfluent s) = True"
| "is_confluent_call a = False"

fun is_internal_call :: "Action \<Rightarrow> bool" where
  "is_internal_call (CallInternalTransition s e) = True"
| "is_internal_call a = False"

fun is_external_call :: "Action \<Rightarrow> bool" where
  "is_external_call (CallExternalTransition s t) = True"
| "is_external_call a = False"

fun is_request_call :: "Action \<Rightarrow> bool" where
  "is_request_call (CallRequest s e) = True"
| "is_request_call a = False"

text \<open>What \<^verbatim>\<open>confluentTransitions\<close> answers for the bag of \<open>s\<close>, when it holds an internal event.\<close>

definition confluent_choice :: "'w Dynamics \<Rightarrow> 'w Coordinator \<Rightarrow> Simulator \<Rightarrow> EventType option"
  where
  "confluent_choice dyn c s =
     (case bag_internal (current_bag c s) of
        None \<Rightarrow> None
      | Some ev \<Rightarrow>
          Some (sim_confluentTransitions dyn (world c) s ev (bag_externals (current_bag c s))))"

definition put_internal_action :: "InternalEvent option \<Rightarrow> Action list" where
  "put_internal_action i = (case i of None \<Rightarrow> [] | Some e \<Rightarrow> [PutInternal e])"

definition scheduled :: "'w Coordinator \<Rightarrow> InternalEvent option \<Rightarrow> bool" where
  "scheduled c i =
     (case i of None \<Rightarrow> True | Some e \<Rightarrow> e \<in> set (et_internalEventList (m_eventTable c)))"

text \<open>An event table mentions a simulator when any event it holds, pending or in the
  CompleteEventBagModel, has the simulator as its model, source or target.\<close>

definition bag_mentions :: "Simulator \<Rightarrow> Simulator \<times> EventBagModel \<Rightarrow> bool" where
  "bag_mentions s sb =
     (fst sb = s
      \<or> (case bag_internal (snd sb) of None \<Rightarrow> False | Some e \<Rightarrow> ie_model e = s)
      \<or> list_ex (mentions s) (bag_externals (snd sb))
      \<or> list_ex (mentions s) (bag_requests (snd sb)))"

definition table_mentions :: "Simulator \<Rightarrow> EventTable \<Rightarrow> bool" where
  "table_mentions s et =
     (list_ex (\<lambda>e. ie_model e = s) (et_internalEventList et)
      \<or> list_ex (\<lambda>e. oe_model e = s) (et_observationEventList et)
      \<or> list_ex (bag_mentions s) (et_bags et)
      \<or> list_ex (\<lambda>e. oe_model e = s) (et_states et))"

definition observes :: "Simulator \<Rightarrow> View \<Rightarrow> bool" where
  "observes s v = list_ex (\<lambda>sp. fst sp = s) (v_observables v)"

section \<open>Reading the paths of a bag\<close>

text \<open>
  What \<^verbatim>\<open>dispatchExternalEvent\<close> logs for a list of events leaving simulator \<open>sim\<close>: for
  each event, the puts of its copies, one per destination, then its deletion.
\<close>

definition routing_log :: "'w Coordinator \<Rightarrow> Simulator \<Rightarrow> ExternalEvent list \<Rightarrow> Action list"
  where
  "routing_log c sim es =
     concat (map (\<lambda>ev. map (\<lambda>d. put_action (routed_copy c sim ev d)) (destinations c sim ev)
                         @ [DeleteEvent (ev\<lparr> ee_model := sim \<rparr>)]) es)"

text \<open>
  The subscriptions of the event views to a simulator, as (view name, port), in the
  order \<^verbatim>\<open>processEventView\<close> serves them; the observation event built for one of them
  at time \<open>t\<close>; the notifications logged for a list of them; and the world after the
  model has answered and the view processed each of them in turn.
\<close>

definition subscriptions :: "'w Coordinator \<Rightarrow> Simulator \<Rightarrow> (string \<times> string) list" where
  "subscriptions c sim =
     concat (map (\<lambda>v. map (\<lambda>p. (v_name v, p)) (view_get sim v)) (m_eventViewList c))"

definition notify_event :: "Simulator \<Rightarrow> Time \<Rightarrow> string \<times> string \<Rightarrow> ObservationEvent" where
  "notify_event sim t np =
     \<lparr> oe_time = t, oe_model = sim, oe_viewName = fst np, oe_portName = snd np \<rparr>"

definition notification_log :: "Simulator \<Rightarrow> Time \<Rightarrow> (string \<times> string) list \<Rightarrow> Action list"
  where
  "notification_log sim t nps = map (\<lambda>np. NotifyEventView (fst np) (notify_event sim t np)) nps"

fun notify_world ::
  "'w Dynamics \<Rightarrow> Simulator \<Rightarrow> Time \<Rightarrow> (string \<times> string) list \<Rightarrow> 'w \<Rightarrow> 'w" where
  "notify_world dyn sim t [] w = w"
| "notify_world dyn sim t (np # nps) w =
     notify_world dyn sim t nps
       (snd (view_processObservationEvent dyn w (fst np)
               (sim_observation dyn w sim (notify_event sim t np))))"

text \<open>
  The rule of one turn of the loop on the bag of \<open>s\<close>, from the state \<open>a\<close> before the
  turn to the state \<open>b\<close> after it, read off the calls the turn logged:
  \<^verbatim>\<open>confluentTransitions\<close> is called exactly when an internal event and external events
  are both pending; the internal transition exactly when an internal event is pending
  and either no external event is or the answer was \<^verbatim>\<open>INTERNAL\<close>; the external
  transition exactly when external events are pending and either no internal event is or
  the answer was \<^verbatim>\<open>EXTERNAL\<close>; \<^verbatim>\<open>request\<close> exactly when neither is pending and requests
  are.
\<close>

definition turn_rule ::
  "'w Dynamics \<Rightarrow> Simulator \<Rightarrow> 'w Coordinator \<Rightarrow> 'w Coordinator \<Rightarrow> bool" where
  "turn_rule dyn s a b =
     ((list_ex is_confluent_call (new_actions a b)
         = (\<not> emptyInternal (current_bag a s) \<and> \<not> emptyExternal (current_bag a s)))
      \<and> (list_ex is_internal_call (new_actions a b)
         = (\<not> emptyInternal (current_bag a s)
            \<and> (emptyExternal (current_bag a s) \<or> confluent_choice dyn a s = Some INTERNAL)))
      \<and> (list_ex is_external_call (new_actions a b)
         = (\<not> emptyExternal (current_bag a s)
            \<and> (emptyInternal (current_bag a s) \<or> confluent_choice dyn a s = Some EXTERNAL)))
      \<and> (list_ex is_request_call (new_actions a b)
         = (emptyInternal (current_bag a s) \<and> emptyExternal (current_bag a s)
            \<and> \<not> emptyRequest (current_bag a s))))"

text \<open>
  The turns of the loops of \<^verbatim>\<open>run\<close>, in order: the simulator whose bag is served, the
  state before the turn and the state after it.
\<close>

fun drain_bag_turns ::
  "nat \<Rightarrow> 'w Dynamics \<Rightarrow> Simulator \<Rightarrow> 'w Coordinator
     \<Rightarrow> (Simulator \<times> 'w Coordinator \<times> 'w Coordinator) list" where
  "drain_bag_turns 0 dyn s c = []"
| "drain_bag_turns (Suc n) dyn s c =
     (if bag_empty (current_bag c s) then []
      else case bag_step dyn s c of
             Returns c1 \<Rightarrow> (s, c, c1) # drain_bag_turns n dyn s c1
           | Throws e \<Rightarrow> []
           | OutOfFuel \<Rightarrow> [])"

fun drain_bags_turns ::
  "nat \<Rightarrow> 'w Dynamics \<Rightarrow> 'w Coordinator
     \<Rightarrow> (Simulator \<times> 'w Coordinator \<times> 'w Coordinator) list" where
  "drain_bags_turns 0 dyn c = []"
| "drain_bags_turns (Suc n) dyn c =
     (case topBag (m_eventTable c) of
        None \<Rightarrow> []
      | Some s \<Rightarrow>
          drain_bag_turns n dyn s c
          @ (case drain_bag n dyn s c of
               Returns c1 \<Rightarrow> drain_bags_turns n dyn c1
             | Throws e \<Rightarrow> []
             | OutOfFuel \<Rightarrow> []))"

definition run_turns ::
  "nat \<Rightarrow> 'w Dynamics \<Rightarrow> 'w Coordinator \<Rightarrow> (Simulator \<times> 'w Coordinator \<times> 'w Coordinator) list"
  where
  "run_turns n dyn c = drain_bags_turns n dyn (pop_bags c)"

definition turn_log :: "Simulator \<times> 'w Coordinator \<times> 'w Coordinator \<Rightarrow> Action list" where
  "turn_log t = new_actions (fst (snd t)) (snd (snd t))"

definition turn_ok :: "'w Dynamics \<Rightarrow> Simulator \<times> 'w Coordinator \<times> 'w Coordinator \<Rightarrow> bool" where
  "turn_ok dyn t =
     (bag_step dyn (fst t) (fst (snd t)) = Returns (snd (snd t))
      \<and> \<not> bag_empty (current_bag (fst (snd t)) (fst t))
      \<and> turn_rule dyn (fst t) (fst (snd t)) (snd (snd t)))"

section \<open>A small simulation\<close>

text \<open>
  Three atomic models: an executive (simulator 1 of node 11), a model it deletes at time
  1 (simulator 2 of node 12) and a receiver (simulator 3 of node 13) connected to the
  executive's port \<open>out\<close>. A timed view observes the receiver, an event view the
  executive. Every internal transition reschedules its model one time unit later; the
  timed view asks for its next observation one time unit later. The world counts the
  observations processed by the views.
\<close>

definition out_event :: "Time \<Rightarrow> ExternalEvent" where
  "out_event t = \<lparr> ee_time = t, ee_model = 0, ee_portName = ''out'', ee_target = 0,
                   ee_targetPort = '''', ee_isRequest = False,
                   ee_attributes = [(''x'', 42)] \<rparr>"

definition demo_dyn :: "nat Dynamics" where
  "demo_dyn =
     \<lparr> sim_confluentTransitions = (\<lambda>w s i es. EXTERNAL),
       sim_output = (\<lambda>w s t. (if s = 1 then [out_event t] else [], [], w)),
       sim_internalTransition = (\<lambda>w s ev.
          (Some \<lparr> ie_time = ie_time ev + 1, ie_model = s \<rparr>,
           if s = 1 \<and> ie_time ev = 1 then [DelModel 12] else [], w)),
       sim_externalTransition = (\<lambda>w s es t. (None, [], w)),
       sim_request = (\<lambda>w s e t. ([], [], w)),
       sim_observation = (\<lambda>w s e. Some e),
       view_processObservationEvent = (\<lambda>w n e.
          (case e of
             None \<Rightarrow> None
           | Some ev \<Rightarrow> if n = ''timed'' then Some (ev\<lparr> oe_time := oe_time ev + 1 \<rparr>)
                        else None,
           Suc w)) \<rparr>"

definition demo_start :: "nat Coordinator" where
  "demo_start = init
     \<lparr> m_currentTime = 0,
       m_modelList = [11 \<mapsto> 1, 12 \<mapsto> 2, 13 \<mapsto> 3],
       m_viewList = [\<lparr> v_name = ''timed'', v_type = TIMED, v_observables = [(3, ''state'')] \<rparr>,
                     \<lparr> v_name = ''event'', v_type = EVENT, v_observables = [(1, ''state'')] \<rparr>],
       m_eventTable =
         \<lparr> et_currentTime = 0,
           et_internalEventList = [\<lparr> ie_time = 1, ie_model = 1 \<rparr>,
                                   \<lparr> ie_time = 5, ie_model = 2 \<rparr>,
                                   \<lparr> ie_time = 1, ie_model = 3 \<rparr>],
           et_observationEventList = [\<lparr> oe_time = 1, oe_model = 3, oe_viewName = ''timed'',
                                        oe_portName = ''state'' \<rparr>],
           et_bags = [], et_states = [] \<rparr>,
       m_deletedSimulator = [],
       m_toDelete = 0,
       structure_of = (\<lambda>s. 10 + s),
       connections = [((11, ''out''), (13, ''in''))],
       world = 0,
       trace = [] \<rparr>"

text \<open>The same coordinator with nothing scheduled.\<close>

definition demo_idle :: "nat Coordinator" where
  "demo_idle = demo_start\<lparr> m_eventTable :=
     \<lparr> et_currentTime = 0, et_internalEventList = [], et_observationEventList = [],
       et_bags = [], et_states = [] \<rparr> \<rparr>"

text \<open>
  A model that deletes itself: the only simulator (1, of node 11) calls \<^verbatim>\<open>delModel\<close> on
  its own node inside its internal transition at time 1, and the transition answers the
  next internal event as always.
\<close>

definition selfdel_dyn :: "nat Dynamics" where
  "selfdel_dyn = demo_dyn\<lparr> sim_internalTransition := (\<lambda>w s ev.
          (Some \<lparr> ie_time = ie_time ev + 1, ie_model = s \<rparr>,
           if s = 1 \<and> ie_time ev = 1 then [DelModel 11] else [], w)) \<rparr>"

definition selfdel_start :: "nat Coordinator" where
  "selfdel_start = demo_start
     \<lparr> m_modelList := [11 \<mapsto> 1],
       m_viewList := [],
       m_eventTable :=
         \<lparr> et_currentTime = 0,
           et_internalEventList = [\<lparr> ie_time = 1, ie_model = 1 \<rparr>],
           et_observationEventList = [], et_bags = [], et_states = [] \<rparr>,
       connections := [] \<rparr>"

text \<open>
  Two variants of the small simulation: models that answer \<^verbatim>\<open>INTERNAL\<close> on a confluent
  bag, and models whose internal transition answers an internal event five time units
  before the event it was called with.
\<close>

definition demo_internal_dyn :: "nat Dynamics" where
  "demo_internal_dyn = demo_dyn\<lparr> sim_confluentTransitions := (\<lambda>w s i es. INTERNAL) \<rparr>"

definition back_dyn :: "nat Dynamics" where
  "back_dyn = demo_dyn\<lparr> sim_internalTransition := (\<lambda>w s ev.
          (Some \<lparr> ie_time = ie_time ev - 5, ie_model = s \<rparr>, [], w)) \<rparr>"

text \<open>Reading an outcome.\<close>

fun returned :: "'a outcome \<Rightarrow> bool" where
  "returned (Returns x) = True"
| "returned m = False"

section \<open>Properties of PackageTable\<close>

text \<open>
  C8. For every index \<open>i\<close>, \<^verbatim>\<open>remove(i)\<close> throws an ArgError if and only if \<open>i\<close> designates
  the current package; when it throws the table is left unchanged, and when \<open>i\<close> is not the
  current package the entry \<open>i\<close> is erased from the table (and nothing else is).
\<close>

theorem remove_throws_iff_current:
  "(fst (remove i pt) \<noteq> None) = (m_current pt = i)
   \<and> (fst (remove i pt) \<noteq> None \<longrightarrow> snd (remove i pt) = pt)
   \<and> (m_current pt \<noteq> i \<longrightarrow>
        fst (remove i pt) = None
        \<and> m_table (snd (remove i pt)) = m_table pt - {i}
        \<and> i \<notin> m_table (snd (remove i pt))
        \<and> m_current (snd (remove i pt)) = m_current pt)"
  by (simp add: remove_def)

theorem remove_throws_iff_current_witness:
  "fst (remove ''a'' (snd (get ''a'' PackageTable_new))) = None
   \<and> m_table (snd (remove ''a'' (snd (get ''a'' PackageTable_new)))) = {''''}
   \<and> fst (remove '''' (snd (get ''a'' PackageTable_new))) \<noteq> None
   \<and> snd (remove '''' (snd (get ''a'' PackageTable_new))) = snd (get ''a'' PackageTable_new)"
  using remove_throws_iff_current [of "''a''" "snd (get ''a'' PackageTable_new)"]
        remove_throws_iff_current [of "''''" "snd (get ''a'' PackageTable_new)"]
  by (auto simp add: get_def PackageTable_new_def)

text \<open>
  C9. For every package name already present in the table, \<^verbatim>\<open>current(name)\<close> leaves the
  current selection (and the table) unchanged; the selection is updated only when the name
  is newly inserted by the call, and then it designates that name.
\<close>

theorem current_present_unchanged:
  "(name \<in> m_table pt \<longrightarrow> current name pt = pt)
   \<and> (m_current (current name pt) \<noteq> m_current pt \<longrightarrow> name \<notin> m_table pt)
   \<and> (name \<notin> m_table pt \<longrightarrow> m_current (current name pt) = name)"
  by (auto simp add: current_def Let_def insert_absorb)

theorem current_present_unchanged_witness:
  "m_current (current ''a'' (current ''b'' (current ''a'' PackageTable_new))) = ''b''
   \<and> current ''a'' (current ''b'' (current ''a'' PackageTable_new))
       = current ''b'' (current ''a'' PackageTable_new)"
  using current_present_unchanged
          [of "''a''" "current ''b'' (current ''a'' PackageTable_new)"]
  by (simp add: current_def PackageTable_new_def Let_def)

section \<open>Properties of Condition\<close>

text \<open>
  C10. \<^verbatim>\<open>add(portname)\<close> is idempotent with respect to the stored value sets: if the port
  already exists, every value set (including the values added before by
  \<^verbatim>\<open>addValueToPort\<close>) is preserved and only the last-added-port marker is updated; adding
  the same port twice is the same as adding it once.
\<close>

theorem add_existing_port_preserves_values:
  "(ports c portname \<noteq> None \<longrightarrow>
       add portname c = c\<lparr> m_last_port := portname \<rparr>)
   \<and> ports (add portname (addValueToPort portname v c)) = ports (addValueToPort portname v c)
   \<and> add portname (add portname c) = add portname c
   \<and> m_last_port (add portname c) = portname"
  by (auto simp add: add_def addValueToPort_def Let_def split: option.splits)

theorem add_existing_port_preserves_values_witness:
  "ports (add ''p'' (addValueToPort ''p'' (2::int)
            (addValueToPort ''p'' 1 (add ''q'' (Condition_new ''c''))))) ''p'' = Some [1, 2]
   \<and> m_last_port (add ''p'' (addValueToPort ''p'' (2::int)
            (addValueToPort ''p'' 1 (add ''q'' (Condition_new ''c''))))) = ''p''"
  using add_existing_port_preserves_values
          [of "addValueToPort ''p'' (2::int)
                 (addValueToPort ''p'' 1 (add ''q'' (Condition_new ''c'')))" "''p''"]
  by (simp add: add_def addValueToPort_def Condition_new_def Let_def)

section \<open>Lemmas on the call log\<close>

lemma extends_refl: "extends Q c c"
  by (simp add: extends_def)

lemma extends_trans: "extends Q a b \<Longrightarrow> extends Q b c \<Longrightarrow> extends Q a c"
  by (auto simp add: extends_def)

lemma extends_weaken: "extends Q c c' \<Longrightarrow> (\<And>a. Q a \<Longrightarrow> Q' a) \<Longrightarrow> extends Q' c c'"
  by (auto simp add: extends_def list_all_iff)

lemma extends_same_trace: "trace c' = trace c \<Longrightarrow> extends Q c c'"
  by (simp add: extends_def)

lemma extends_new_actions: "extends Q c c' \<Longrightarrow> list_all Q (new_actions c c')"
  by (auto simp add: extends_def new_actions_def)

lemma extends_trace: "extends Q c c' \<Longrightarrow> trace c' = trace c @ new_actions c c'"
  by (auto simp add: extends_def new_actions_def)

lemma trace_logged [simp]: "trace (logged as c) = trace c @ as"
  by (simp add: logged_def)

lemma frame_refl: "frame c c"
  by (simp add: frame_def extends_refl)

lemma frame_trans: "frame a b \<Longrightarrow> frame b c \<Longrightarrow> frame a c"
  unfolding frame_def by (auto intro: extends_trans)

lemma frame_logged:
  "list_all drain_action as \<Longrightarrow> frame c (logged as c)"
  by (simp add: frame_def logged_def extends_def)

lemma frame_bag_modify: "frame c (bag_modify s f c)"
  by (simp add: frame_def bag_modify_def extends_def)

lemma frame_world: "frame c (c\<lparr> world := w \<rparr>)"
  by (simp add: frame_def extends_def)

lemma frame_route_one: "frame c (route_one e jt c)"
  by (simp add: frame_def route_one_def Let_def logged_def extends_def drain_action_def
                putRequestEvent_def putExternalEvent_def)

lemma frame_fold:
  assumes "\<And>x c. frame c (f x c)"
  shows "frame c (fold f xs c)"
proof (induction xs arbitrary: c)
  case Nil
  show ?case by (simp add: frame_refl)
next
  case (Cons x xs)
  have "frame c (f x c)" by (rule assms)
  moreover have "frame (f x c) (fold f xs (f x c))" by (rule Cons.IH)
  ultimately show ?case by (auto intro: frame_trans)
qed

lemma frame_dispatch_one: "frame c (dispatch_one sim ev c)"
proof -
  let ?e = "ev\<lparr> ee_model := sim \<rparr>"
  let ?out = "getTargetPortList (connections c) (structure_of c sim) (ee_portName ?e)"
  have 1: "frame c (fold (route_one ?e) ?out c)"
    by (rule frame_fold) (rule frame_route_one)
  have 2: "frame (fold (route_one ?e) ?out c) (logged [DeleteEvent ?e] (fold (route_one ?e) ?out c))"
    by (rule frame_logged) (simp add: drain_action_def)
  show ?thesis
    unfolding dispatch_one_def Let_def using frame_trans [OF 1 2] by simp
qed

lemma frame_dispatchExternalEvent: "frame c (dispatchExternalEvent es sim c)"
  unfolding dispatchExternalEvent_def by (rule frame_fold) (rule frame_dispatch_one)

lemma frame_notify_one: "frame c (notify_one dyn model t v port c)"
  by (simp add: frame_def notify_one_def Let_def logged_def extends_def drain_action_def)

lemma frame_processEventView: "frame c (processEventView dyn model event c)"
  unfolding processEventView_def Let_def
  by (rule frame_fold) (rule frame_fold, rule frame_notify_one)

lemma frame_put_internal_opt: "frame c (put_internal_opt i c)"
  by (cases i)
     (simp_all add: put_internal_opt_def frame_def logged_def extends_def drain_action_def
                    putInternalEvent_def)

lemma frame_delAtomicModel: "delAtomicModel atom c = Returns c' \<Longrightarrow> frame c c'"
  by (auto simp add: delAtomicModel_def frame_def extends_def drain_action_def
                     delModelEvents_def
           split: if_splits option.splits)

lemma frame_delModel: "delModel mdl c = Returns c' \<Longrightarrow> frame c c'"
  by (auto simp add: delModel_def split: if_splits dest: frame_delAtomicModel)

lemma obind_Returns:
  "obind m f = Returns y \<Longrightarrow> \<exists>x. m = Returns x \<and> f x = Returns y"
  by (cases m) simp_all

lemma frame_apply_execs: "apply_execs xs c = Returns c' \<Longrightarrow> frame c c'"
proof (induction xs arbitrary: c)
  case Nil
  then show ?case by (simp add: frame_refl)
next
  case (Cons x xs)
  obtain mdl where x: "x = DelModel mdl" by (cases x)
  from Cons.prems x obtain c1 where 1: "delModel mdl c = Returns c1"
    and 2: "apply_execs xs c1 = Returns c'"
    by (auto dest: obind_Returns)
  from frame_delModel [OF 1] Cons.IH [OF 2] show ?case by (rule frame_trans)
qed


lemma frame_request_one: "request_one dyn sim ev c = Returns c' \<Longrightarrow> frame c c'"
proof -
  assume a: "request_one dyn sim ev c = Returns c'"
  let ?r = "sim_request dyn (world c) sim ev (m_currentTime c)"
  let ?c1 = "logged [CallRequest sim ev] (c\<lparr> world := snd (snd ?r) \<rparr>)"
  from a obtain c2 where 1: "apply_execs (fst (snd ?r)) ?c1 = Returns c2"
    and 2: "c' = dispatchExternalEvent (fst ?r) sim c2"
    unfolding request_one_def Let_def by (auto dest: obind_Returns)
  have "frame c (c\<lparr> world := snd (snd ?r) \<rparr>)" by (rule frame_world)
  moreover have "frame (c\<lparr> world := snd (snd ?r) \<rparr>) ?c1"
    by (rule frame_logged) (simp add: drain_action_def)
  moreover have "frame ?c1 c2" by (rule frame_apply_execs [OF 1])
  moreover have "frame c2 c'" unfolding 2 by (rule frame_dispatchExternalEvent)
  ultimately show ?thesis by (blast intro: frame_trans)
qed

lemma frame_request_loop: "request_loop dyn sim evs c = Returns c' \<Longrightarrow> frame c c'"
proof (induction evs arbitrary: c)
  case Nil
  then show ?case by (simp add: frame_refl)
next
  case (Cons ev evs)
  from Cons.prems obtain c1 where 1: "request_one dyn sim ev c = Returns c1"
    and 2: "request_loop dyn sim evs c1 = Returns c'"
    by (auto dest: obind_Returns)
  from frame_request_one [OF 1] Cons.IH [OF 2] show ?case by (rule frame_trans)
qed

lemma frame_processRequestEvents:
  "processRequestEvents dyn sim c = Returns c' \<Longrightarrow> frame c c'"
proof -
  assume a: "processRequestEvents dyn sim c = Returns c'"
  then obtain c1 where 1: "request_loop dyn sim (bag_requests (current_bag c sim)) c = Returns c1"
    and 2: "c' = bag_modify sim delRequest c1"
    unfolding processRequestEvents_def by (auto dest: obind_Returns)
  have "frame c1 c'" unfolding 2 by (rule frame_bag_modify)
  with frame_request_loop [OF 1] show ?thesis by (rule frame_trans)
qed

lemma frame_callback:
  assumes "apply_execs xs (logged [a] (c\<lparr> world := w \<rparr>)) = Returns c'"
    and "drain_action a"
  shows "frame c c'"
proof -
  have "frame c (c\<lparr> world := w \<rparr>)" by (rule frame_world)
  moreover have "frame (c\<lparr> world := w \<rparr>) (logged [a] (c\<lparr> world := w \<rparr>))"
    by (rule frame_logged) (simp add: assms(2))
  moreover note frame_apply_execs [OF assms(1)]
  ultimately show ?thesis by (blast intro: frame_trans)
qed

lemma frame_external_block: "external_block dyn sim c = Returns c' \<Longrightarrow> frame c c'"
proof -
  assume a: "external_block dyn sim c = Returns c'"
  let ?i = "sim_externalTransition dyn (world c) sim (bag_externals (current_bag c sim))
              (m_currentTime c)"
  from a obtain c2 where
    1: "apply_execs (fst (snd ?i))
          (logged [CallExternalTransition sim (m_currentTime c)]
             (c\<lparr> world := snd (snd ?i) \<rparr>)) = Returns c2"
    and 2: "c' = put_internal_opt (fst ?i) c2"
    unfolding external_block_def Let_def by (auto dest: obind_Returns)
  have "frame c c2" by (rule frame_callback [OF 1]) (simp add: drain_action_def)
  moreover have "frame c2 c'" unfolding 2 by (rule frame_put_internal_opt)
  ultimately show ?thesis by (rule frame_trans)
qed

lemma frame_processExternalEvents:
  "processExternalEvents dyn sim c = Returns c' \<Longrightarrow> frame c c'"
proof -
  assume a: "processExternalEvents dyn sim c = Returns c'"
  then obtain c3 where 1: "external_block dyn sim c = Returns c3"
    and 2: "c' = processEventView dyn sim None (bag_modify sim delExternals c3)"
    unfolding processExternalEvents_def by (auto dest: obind_Returns)
  have "frame c3 (bag_modify sim delExternals c3)" by (rule frame_bag_modify)
  moreover have "frame (bag_modify sim delExternals c3) c'"
    unfolding 2 by (rule frame_processEventView)
  ultimately show ?thesis using frame_external_block [OF 1] by (blast intro: frame_trans)
qed

lemma frame_output_block: "output_block dyn sim c = Returns c' \<Longrightarrow> frame c c'"
proof -
  assume a: "output_block dyn sim c = Returns c'"
  let ?r = "sim_output dyn (world c) sim (m_currentTime c)"
  from a obtain c2 where
    1: "apply_execs (fst (snd ?r))
          (logged [CallOutput sim (m_currentTime c)] (c\<lparr> world := snd (snd ?r) \<rparr>))
        = Returns c2"
    and 2: "c' = dispatchExternalEvent (fst ?r) sim c2"
    unfolding output_block_def Let_def by (auto dest: obind_Returns)
  have "frame c c2" by (rule frame_callback [OF 1]) (simp add: drain_action_def)
  moreover have "frame c2 c'" unfolding 2 by (rule frame_dispatchExternalEvent)
  ultimately show ?thesis by (rule frame_trans)
qed

lemma frame_internal_block: "internal_block dyn sim ev c = Returns c' \<Longrightarrow> frame c c'"
proof -
  assume a: "internal_block dyn sim ev c = Returns c'"
  let ?i = "sim_internalTransition dyn (world c) sim ev"
  from a obtain c2 where
    1: "apply_execs (fst (snd ?i))
          (logged [CallInternalTransition sim ev] (c\<lparr> world := snd (snd ?i) \<rparr>))
        = Returns c2"
    and 2: "c' = put_internal_opt (fst ?i) c2"
    unfolding internal_block_def Let_def by (auto dest: obind_Returns)
  have "frame c c2" by (rule frame_callback [OF 1]) (simp add: drain_action_def)
  moreover have "frame c2 c'" unfolding 2 by (rule frame_put_internal_opt)
  ultimately show ?thesis by (rule frame_trans)
qed

lemma processInternalEvent_Returns:
  assumes "processInternalEvent dyn sim c = Returns c'"
  obtains ev c3 c6 where
    "bag_internal (current_bag c sim) = Some ev"
    "output_block dyn sim (bag_modify sim delInternal c) = Returns c3"
    "internal_block dyn sim ev c3 = Returns c6"
    "c' = processEventView dyn sim (Some ev) c6"
proof -
  from assms obtain ev where ev: "bag_internal (current_bag c sim) = Some ev"
    unfolding processInternalEvent_def by (auto split: option.splits)
  from assms ev obtain c3 where
    1: "output_block dyn sim (bag_modify sim delInternal c) = Returns c3"
    and r: "obind (internal_block dyn sim ev c3)
              (\<lambda>c6. Returns (processEventView dyn sim (Some ev) c6)) = Returns c'"
    unfolding processInternalEvent_def by (auto dest: obind_Returns)
  from r obtain c6 where 2: "internal_block dyn sim ev c3 = Returns c6"
    and 3: "c' = processEventView dyn sim (Some ev) c6"
    by (auto dest: obind_Returns)
  from ev 1 2 3 show ?thesis by (rule that)
qed

lemma frame_processInternalEvent:
  assumes "processInternalEvent dyn sim c = Returns c'"
  shows "frame c c'"
proof -
  from assms obtain ev c3 c6 where
    1: "output_block dyn sim (bag_modify sim delInternal c) = Returns c3"
    and 2: "internal_block dyn sim ev c3 = Returns c6"
    and 3: "c' = processEventView dyn sim (Some ev) c6"
    by (rule processInternalEvent_Returns)
  have "frame c (bag_modify sim delInternal c)" by (rule frame_bag_modify)
  moreover note frame_output_block [OF 1] frame_internal_block [OF 2]
  moreover have "frame c6 c'" unfolding 3 by (rule frame_processEventView)
  ultimately show ?thesis by (blast intro: frame_trans)
qed

lemma frame_bag_step: "bag_step dyn s c = Returns c' \<Longrightarrow> frame c c'"
proof -
  assume a: "bag_step dyn s c = Returns c'"
  have l: "frame c (logged [CallConfluent s] c)"
    by (rule frame_logged) (simp add: drain_action_def)
  from a consider
      (i) "processInternalEvent dyn s c = Returns c'"
    | (e) "processExternalEvents dyn s c = Returns c'"
    | (r) "processRequestEvents dyn s c = Returns c'"
    | (ci) "processInternalEvent dyn s (logged [CallConfluent s] c) = Returns c'"
    | (ce) "processExternalEvents dyn s (logged [CallConfluent s] c) = Returns c'"
    unfolding bag_step_def Let_def
    by (auto split: if_splits option.splits EventType.splits)
  then show ?thesis
  proof cases
    case i then show ?thesis by (rule frame_processInternalEvent)
  next
    case e then show ?thesis by (rule frame_processExternalEvents)
  next
    case r then show ?thesis by (rule frame_processRequestEvents)
  next
    case ci
    from l frame_processInternalEvent [OF ci] show ?thesis by (rule frame_trans)
  next
    case ce
    from l frame_processExternalEvents [OF ce] show ?thesis by (rule frame_trans)
  qed
qed

lemma frame_drain_bag: "drain_bag n dyn s c = Returns c' \<Longrightarrow> frame c c'"
proof (induction n arbitrary: c)
  case 0
  then show ?case by simp
next
  case (Suc n)
  show ?case
  proof (cases "bag_empty (current_bag c s)")
    case True
    with Suc.prems show ?thesis by (simp add: frame_refl)
  next
    case False
    with Suc.prems obtain c1 where 1: "bag_step dyn s c = Returns c1"
      and 2: "drain_bag n dyn s c1 = Returns c'"
      by (auto dest: obind_Returns)
    from frame_bag_step [OF 1] Suc.IH [OF 2] show ?thesis by (rule frame_trans)
  qed
qed

lemma frame_drain_bags: "drain_bags n dyn c = Returns c' \<Longrightarrow> frame c c'"
proof (induction n arbitrary: c)
  case 0
  then show ?case by simp
next
  case (Suc n)
  show ?case
  proof (cases "topBag (m_eventTable c)")
    case None
    with Suc.prems show ?thesis by (simp add: frame_refl)
  next
    case (Some s)
    with Suc.prems obtain c1 where 1: "drain_bag n dyn s c = Returns c1"
      and 2: "drain_bags n dyn c1 = Returns c'"
      by (auto dest: obind_Returns)
    from frame_drain_bag [OF 1] Suc.IH [OF 2] show ?thesis by (rule frame_trans)
  qed
qed


section \<open>Lemmas on the times\<close>

lemma bag_ge_empty: "bag_ge T empty_bag"
  by (simp add: bag_ge_def empty_bag_def later_internal_def)

lemma bag_of_ge: "list_all (\<lambda>sb. bag_ge T (snd sb)) bs \<Longrightarrow> bag_ge T (bag_of s bs)"
  by (induction bs) (auto simp add: bag_ge_empty)

lemma bag_update_ge:
  assumes "list_all (\<lambda>sb. bag_ge T (snd sb)) bs" and "\<And>b. bag_ge T b \<Longrightarrow> bag_ge T (f b)"
  shows "list_all (\<lambda>sb. bag_ge T (snd sb)) (bag_update s f bs)"
  using assms by (induction bs) (auto simp add: bag_ge_empty)

lemma times_ge_logged: "times_ge T c \<Longrightarrow> times_ge T (logged as c)"
  by (simp add: times_ge_def logged_def)

lemma times_ge_world: "times_ge T c \<Longrightarrow> times_ge T (c\<lparr> world := w \<rparr>)"
  by (simp add: times_ge_def)

lemma times_ge_bag_modify:
  assumes "times_ge T c" and "\<And>b. bag_ge T b \<Longrightarrow> bag_ge T (f b)"
  shows "times_ge T (bag_modify s f c)"
  using assms
  by (auto simp add: times_ge_def bag_modify_def pending_ge_def bags_ge_def list_all_iff)

lemma bag_ge_del:
  "bag_ge T b \<Longrightarrow> bag_ge T (delInternal b)"
  "bag_ge T b \<Longrightarrow> bag_ge T (delExternals b)"
  "bag_ge T b \<Longrightarrow> bag_ge T (delRequest b)"
  by (simp_all add: bag_ge_def delInternal_def delExternals_def delRequest_def
                    later_internal_def)

lemma times_ge_route_one: "times_ge T c \<Longrightarrow> times_ge T (route_one e jt c)"
  by (auto simp add: times_ge_def route_one_def Let_def logged_def putRequestEvent_def
                     putExternalEvent_def pending_ge_def bags_ge_def bag_ge_def
           intro!: bag_update_ge [unfolded bag_ge_def])

lemma times_ge_fold:
  assumes "\<And>x c. times_ge T c \<Longrightarrow> times_ge T (f x c)"
  shows "times_ge T c \<Longrightarrow> times_ge T (fold f xs c)"
  by (induction xs arbitrary: c) (auto intro: assms)

lemma times_ge_dispatch_one: "times_ge T c \<Longrightarrow> times_ge T (dispatch_one sim ev c)"
  unfolding dispatch_one_def Let_def
  by (intro times_ge_logged times_ge_fold times_ge_route_one)

lemma times_ge_dispatchExternalEvent:
  "times_ge T c \<Longrightarrow> times_ge T (dispatchExternalEvent es sim c)"
  unfolding dispatchExternalEvent_def
  by (rule times_ge_fold) (rule times_ge_dispatch_one)

lemma times_ge_notify_one: "times_ge T c \<Longrightarrow> times_ge T (notify_one dyn model t v port c)"
  by (simp add: times_ge_def notify_one_def Let_def logged_def)

lemma times_ge_processEventView:
  "times_ge T c \<Longrightarrow> times_ge T (processEventView dyn model event c)"
  unfolding processEventView_def Let_def
  by (rule times_ge_fold) (rule times_ge_fold, rule times_ge_notify_one)

lemma times_ge_put_internal_opt:
  "times_ge T c \<Longrightarrow> later_internal T i \<Longrightarrow> times_ge T (put_internal_opt i c)"
  by (cases i)
     (simp_all add: put_internal_opt_def times_ge_def logged_def putInternalEvent_def
                    pending_ge_def bags_ge_def later_internal_def)

lemma bag_ge_purge: "bag_ge T b \<Longrightarrow> bag_ge T (purge_bag s b)"
  by (auto simp add: bag_ge_def purge_bag_def later_internal_def split: option.splits)

lemma times_ge_delAtomicModel:
  "times_ge T c \<Longrightarrow> delAtomicModel atom c = Returns c' \<Longrightarrow> times_ge T c'"
proof -
  assume a: "times_ge T c" and r: "delAtomicModel atom c = Returns c'"
  from r obtain satom where
    c': "c' = c\<lparr> m_modelList := (m_modelList c)(atom := None),
                 m_viewList := map (removeObservable satom) (m_viewList c),
                 m_eventTable := delModelEvents satom (m_eventTable c),
                 m_deletedSimulator := m_deletedSimulator c @ [satom],
                 connections := graph_delModel atom (connections c),
                 trace := trace c @ [ClearSimulator satom] \<rparr>"
    by (auto simp add: delAtomicModel_def split: if_splits option.splits)
  from a have "pending_ge T (delModelEvents satom (m_eventTable c))"
    by (auto simp add: times_ge_def pending_ge_def delModelEvents_def list_all_iff)
  moreover from a have "bags_ge T (delModelEvents satom (m_eventTable c))"
    by (force simp add: times_ge_def bags_ge_def delModelEvents_def list_all_iff
             intro: bag_ge_purge)
  moreover from a have "m_currentTime c = T" by (simp add: times_ge_def)
  ultimately show ?thesis by (simp add: c' times_ge_def)
qed

lemma times_ge_apply_execs:
  "times_ge T c \<Longrightarrow> apply_execs xs c = Returns c' \<Longrightarrow> times_ge T c'"
proof (induction xs arbitrary: c)
  case Nil
  then show ?case by simp
next
  case (Cons x xs)
  obtain mdl where x: "x = DelModel mdl" by (cases x)
  from Cons.prems x obtain c1 where 1: "delModel mdl c = Returns c1"
    and 2: "apply_execs xs c1 = Returns c'"
    by (auto dest: obind_Returns)
  from 1 have "delAtomicModel mdl c = Returns c1"
    by (auto simp add: delModel_def split: if_splits)
  with Cons.prems(1) have "times_ge T c1" by (rule times_ge_delAtomicModel)
  then show ?case using 2 by (rule Cons.IH)
qed

lemma times_ge_callback:
  assumes "times_ge T c" and "apply_execs xs (logged [a] (c\<lparr> world := w \<rparr>)) = Returns c'"
  shows "times_ge T c'"
  using times_ge_apply_execs [OF times_ge_logged [OF times_ge_world [OF assms(1)]] assms(2)] .


lemma times_ge_request_one:
  assumes "times_ge T c" and "request_one dyn sim ev c = Returns c'"
  shows "times_ge T c'"
proof -
  let ?r = "sim_request dyn (world c) sim ev (m_currentTime c)"
  from assms(2) obtain c2 where
    1: "apply_execs (fst (snd ?r)) (logged [CallRequest sim ev] (c\<lparr> world := snd (snd ?r) \<rparr>))
        = Returns c2"
    and 2: "c' = dispatchExternalEvent (fst ?r) sim c2"
    unfolding request_one_def Let_def by (auto dest: obind_Returns)
  have "times_ge T c2" by (rule times_ge_callback [OF assms(1) 1])
  then show ?thesis unfolding 2 by (rule times_ge_dispatchExternalEvent)
qed

lemma times_ge_request_loop:
  "times_ge T c \<Longrightarrow> request_loop dyn sim evs c = Returns c' \<Longrightarrow> times_ge T c'"
proof (induction evs arbitrary: c)
  case Nil
  then show ?case by simp
next
  case (Cons ev evs)
  from Cons.prems obtain c1 where 1: "request_one dyn sim ev c = Returns c1"
    and 2: "request_loop dyn sim evs c1 = Returns c'"
    by (auto dest: obind_Returns)
  from Cons.prems(1) 1 have "times_ge T c1" by (rule times_ge_request_one)
  then show ?case using 2 by (rule Cons.IH)
qed

lemma times_ge_processRequestEvents:
  assumes "times_ge T c" and "processRequestEvents dyn sim c = Returns c'"
  shows "times_ge T c'"
proof -
  from assms(2) obtain c1 where
    1: "request_loop dyn sim (bag_requests (current_bag c sim)) c = Returns c1"
    and 2: "c' = bag_modify sim delRequest c1"
    unfolding processRequestEvents_def by (auto dest: obind_Returns)
  have "times_ge T c1" by (rule times_ge_request_loop [OF assms(1) 1])
  then show ?thesis unfolding 2 by (intro times_ge_bag_modify bag_ge_del)
qed

lemma times_ge_external_block:
  assumes "causal dyn" and "times_ge T c" and "external_block dyn sim c = Returns c'"
  shows "times_ge T c'"
proof -
  let ?i = "sim_externalTransition dyn (world c) sim (bag_externals (current_bag c sim))
              (m_currentTime c)"
  from assms(3) obtain c2 where
    1: "apply_execs (fst (snd ?i))
          (logged [CallExternalTransition sim (m_currentTime c)]
             (c\<lparr> world := snd (snd ?i) \<rparr>)) = Returns c2"
    and 2: "c' = put_internal_opt (fst ?i) c2"
    unfolding external_block_def Let_def by (auto dest: obind_Returns)
  from assms(2) have T: "m_currentTime c = T" by (simp add: times_ge_def)
  from assms(1) have "later_internal (m_currentTime c) (fst ?i)"
    unfolding causal_def by blast
  with T have "later_internal T (fst ?i)" by simp
  moreover have "times_ge T c2" by (rule times_ge_callback [OF assms(2) 1])
  ultimately show ?thesis unfolding 2 by (intro times_ge_put_internal_opt)
qed

lemma times_ge_processExternalEvents:
  assumes "causal dyn" and "times_ge T c" and "processExternalEvents dyn sim c = Returns c'"
  shows "times_ge T c'"
proof -
  from assms(3) obtain c3 where 1: "external_block dyn sim c = Returns c3"
    and 2: "c' = processEventView dyn sim None (bag_modify sim delExternals c3)"
    unfolding processExternalEvents_def by (auto dest: obind_Returns)
  have "times_ge T c3" by (rule times_ge_external_block [OF assms(1,2) 1])
  then show ?thesis unfolding 2
    by (intro times_ge_processEventView times_ge_bag_modify bag_ge_del)
qed

lemma times_ge_output_block:
  assumes "times_ge T c" and "output_block dyn sim c = Returns c'"
  shows "times_ge T c'"
proof -
  let ?r = "sim_output dyn (world c) sim (m_currentTime c)"
  from assms(2) obtain c2 where
    1: "apply_execs (fst (snd ?r))
          (logged [CallOutput sim (m_currentTime c)] (c\<lparr> world := snd (snd ?r) \<rparr>))
        = Returns c2"
    and 2: "c' = dispatchExternalEvent (fst ?r) sim c2"
    unfolding output_block_def Let_def by (auto dest: obind_Returns)
  have "times_ge T c2" by (rule times_ge_callback [OF assms(1) 1])
  then show ?thesis unfolding 2 by (rule times_ge_dispatchExternalEvent)
qed

lemma times_ge_internal_block:
  assumes "causal dyn" and "times_ge T c" and "T \<le> ie_time ev"
    and "internal_block dyn sim ev c = Returns c'"
  shows "times_ge T c'"
proof -
  let ?i = "sim_internalTransition dyn (world c) sim ev"
  from assms(4) obtain c2 where
    1: "apply_execs (fst (snd ?i))
          (logged [CallInternalTransition sim ev] (c\<lparr> world := snd (snd ?i) \<rparr>))
        = Returns c2"
    and 2: "c' = put_internal_opt (fst ?i) c2"
    unfolding internal_block_def Let_def by (auto dest: obind_Returns)
  from assms(1) have "later_internal (ie_time ev) (fst ?i)"
    unfolding causal_def by blast
  with assms(3) have "later_internal T (fst ?i)"
    by (auto simp add: later_internal_def split: option.splits)
  moreover have "times_ge T c2" by (rule times_ge_callback [OF assms(2) 1])
  ultimately show ?thesis unfolding 2 by (intro times_ge_put_internal_opt)
qed

lemma times_ge_processInternalEvent:
  assumes "causal dyn" and "times_ge T c" and "processInternalEvent dyn sim c = Returns c'"
  shows "times_ge T c'"
proof -
  from assms(3) obtain ev c3 c6 where
    0: "bag_internal (current_bag c sim) = Some ev"
    and 1: "output_block dyn sim (bag_modify sim delInternal c) = Returns c3"
    and 2: "internal_block dyn sim ev c3 = Returns c6"
    and 3: "c' = processEventView dyn sim (Some ev) c6"
    by (rule processInternalEvent_Returns)
  from assms(2) have "list_all (\<lambda>sb. bag_ge T (snd sb)) (et_bags (m_eventTable c))"
    by (simp add: times_ge_def bags_ge_def)
  then have "bag_ge T (current_bag c sim)"
    unfolding current_bag_def by (rule bag_of_ge)
  with 0 have ev: "T \<le> ie_time ev" by (simp add: bag_ge_def later_internal_def)
  have "times_ge T (bag_modify sim delInternal c)"
    using assms(2) by (intro times_ge_bag_modify bag_ge_del)
  then have "times_ge T c3" using 1 by (rule times_ge_output_block)
  then have "times_ge T c6" using ev 2 by (rule times_ge_internal_block [OF assms(1)])
  then show ?thesis unfolding 3 by (rule times_ge_processEventView)
qed

lemma times_ge_bag_step:
  assumes "causal dyn" and "times_ge T c" and "bag_step dyn s c = Returns c'"
  shows "times_ge T c'"
proof -
  have l: "times_ge T (logged [CallConfluent s] c)"
    using assms(2) by (rule times_ge_logged)
  from assms(3) consider
      (i) "processInternalEvent dyn s c = Returns c'"
    | (e) "processExternalEvents dyn s c = Returns c'"
    | (r) "processRequestEvents dyn s c = Returns c'"
    | (ci) "processInternalEvent dyn s (logged [CallConfluent s] c) = Returns c'"
    | (ce) "processExternalEvents dyn s (logged [CallConfluent s] c) = Returns c'"
    unfolding bag_step_def Let_def
    by (auto split: if_splits option.splits EventType.splits)
  then show ?thesis
  proof cases
    case i then show ?thesis by (rule times_ge_processInternalEvent [OF assms(1,2)])
  next
    case e then show ?thesis by (rule times_ge_processExternalEvents [OF assms(1,2)])
  next
    case r then show ?thesis by (rule times_ge_processRequestEvents [OF assms(2)])
  next
    case ci then show ?thesis by (rule times_ge_processInternalEvent [OF assms(1) l])
  next
    case ce then show ?thesis by (rule times_ge_processExternalEvents [OF assms(1) l])
  qed
qed

lemma times_ge_drain_bag:
  assumes "causal dyn"
  shows "times_ge T c \<Longrightarrow> drain_bag n dyn s c = Returns c' \<Longrightarrow> times_ge T c'"
proof (induction n arbitrary: c)
  case 0
  then show ?case by simp
next
  case (Suc n)
  show ?case
  proof (cases "bag_empty (current_bag c s)")
    case True
    with Suc.prems show ?thesis by simp
  next
    case False
    with Suc.prems obtain c1 where 1: "bag_step dyn s c = Returns c1"
      and 2: "drain_bag n dyn s c1 = Returns c'"
      by (auto dest: obind_Returns)
    have "times_ge T c1" by (rule times_ge_bag_step [OF assms Suc.prems(1) 1])
    then show ?thesis using 2 by (rule Suc.IH)
  qed
qed

lemma times_ge_drain_bags:
  assumes "causal dyn"
  shows "times_ge T c \<Longrightarrow> drain_bags n dyn c = Returns c' \<Longrightarrow> times_ge T c'"
proof (induction n arbitrary: c)
  case 0
  then show ?case by simp
next
  case (Suc n)
  show ?case
  proof (cases "topBag (m_eventTable c)")
    case None
    with Suc.prems show ?thesis by simp
  next
    case (Some s)
    with Suc.prems obtain c1 where 1: "drain_bag n dyn s c = Returns c1"
      and 2: "drain_bags n dyn c1 = Returns c'"
      by (auto dest: obind_Returns)
    have "times_ge T c1" by (rule times_ge_drain_bag [OF assms Suc.prems(1) 1])
    then show ?thesis using 2 by (rule Suc.IH)
  qed
qed


section \<open>Lemmas on the observation phase\<close>

lemma new_actions_append:
  "trace c' = trace c @ as \<Longrightarrow> new_actions c c' = as"
  by (simp add: new_actions_def)

lemma new_actions_trans:
  assumes "extends Q a b" and "extends Q' b c"
  shows "new_actions a c = new_actions a b @ new_actions b c"
  using assms by (auto simp add: extends_def new_actions_def)

lemma put_observations_in_append:
  "put_observations_in (as @ bs) = put_observations_in as @ put_observations_in bs"
  by (induction as rule: put_observations_in.induct) simp_all

lemma observed_in_append: "observed_in (as @ bs) = observed_in as @ observed_in bs"
  by (induction as rule: observed_in.induct) simp_all

lemma obs_frame_refl: "obs_frame c c"
  by (simp add: obs_frame_def extends_refl new_actions_def)

lemma obs_frame_trans:
  assumes "obs_frame a b" and "obs_frame b c"
  shows "obs_frame a c"
proof -
  from assms have e: "extends is_observation a b" "extends is_observation b c"
    by (simp_all add: obs_frame_def)
  have n: "new_actions a c = new_actions a b @ new_actions b c"
    by (rule new_actions_trans [OF e])
  have "set (put_observations_in (new_actions a c))
          \<subseteq> set (et_observationEventList (m_eventTable c))"
    using assms unfolding n put_observations_in_append obs_frame_def by auto
  moreover have "extends is_observation a c" by (rule extends_trans [OF e])
  ultimately show ?thesis using assms unfolding obs_frame_def by auto
qed

lemma observe_one_Returns:
  assumes "observe_one dyn tp c = Returns c'"
  shows "(sim_observation dyn (world c) (oe_model tp) tp = None
            \<and> c' = logged [CallObservation tp] c)
         \<or> (\<exists>event v.
               sim_observation dyn (world c) (oe_model tp) tp = Some event
               \<and> getView c (oe_viewName event) = Some v
               \<and> c' = put_observation_opt
                         (fst (view_processObservationEvent dyn (world c) (v_name v)
                                 (Some event)))
                         ((logged [CallObservation tp] c)
                            \<lparr> world := snd (view_processObservationEvent dyn (world c)
                                                 (v_name v) (Some event)) \<rparr>))"
  using assms
  by (auto simp add: observe_one_def Let_def logged_def getView_def
           split: if_splits option.splits)


lemma obs_frame_observe_one:
  assumes "observe_one dyn tp c = Returns c'"
  shows "obs_frame c c' \<and> observed_in (new_actions c c') = [tp]"
proof -
  let ?c1 = "logged [CallObservation tp] c"
  have c1: "obs_frame c ?c1 \<and> observed_in (new_actions c ?c1) = [tp]"
    by (simp add: obs_frame_def logged_def extends_def new_actions_def)
  show ?thesis
  proof (cases "sim_observation dyn (world c) (oe_model tp) tp")
    case None
    with assms have "c' = ?c1"
      by (auto simp add: observe_one_def Let_def split: if_splits)
    with c1 show ?thesis by simp
  next
    case (Some event)
    with observe_one_Returns [OF assms] obtain v :: View where
      c': "c' = put_observation_opt
                  (fst (view_processObservationEvent dyn (world c) (v_name v) (Some event)))
                  (?c1\<lparr> world := snd (view_processObservationEvent dyn (world c) (v_name v)
                                        (Some event)) \<rparr>)"
      by auto
    show ?thesis
    proof (cases "fst (view_processObservationEvent dyn (world c) (v_name v) (Some event))")
      case None
      then show ?thesis unfolding c'
        by (simp add: put_observation_opt_def obs_frame_def logged_def extends_def
                      new_actions_def)
    next
      case (Some e2)
      then show ?thesis unfolding c'
        by (auto simp add: put_observation_opt_def obs_frame_def logged_def extends_def
                           new_actions_def putObservationEvent_def)
    qed
  qed
qed

lemma obs_frame_observe_loop:
  "observe_loop dyn evs c = Returns c'
     \<Longrightarrow> obs_frame c c' \<and> observed_in (new_actions c c') = evs"
proof (induction evs arbitrary: c)
  case Nil
  then show ?case by (simp add: obs_frame_refl new_actions_def)
next
  case (Cons tp rest)
  from Cons.prems obtain c1 where 1: "observe_one dyn tp c = Returns c1"
    and 2: "observe_loop dyn rest c1 = Returns c'"
    by (auto dest: obind_Returns)
  note a = obs_frame_observe_one [OF 1] and b = Cons.IH [OF 2]
  from a b have f: "obs_frame c c'" by (blast intro: obs_frame_trans)
  from a have e1: "extends is_observation c c1" by (simp add: obs_frame_def)
  from b have e2: "extends is_observation c1 c'" by (simp add: obs_frame_def)
  have "new_actions c c' = new_actions c c1 @ new_actions c1 c'"
    by (rule new_actions_trans [OF e1 e2])
  with a b have "observed_in (new_actions c c') = tp # rest"
    by (simp add: observed_in_append)
  with f show ?case by simp
qed

lemma times_ge_observe_one:
  assumes "causal dyn" and "times_ge T c" and "T \<le> oe_time tp"
    and "observe_one dyn tp c = Returns c'"
  shows "times_ge T c'"
proof -
  let ?c1 = "logged [CallObservation tp] c"
  have c1: "times_ge T ?c1" using assms(2) by (rule times_ge_logged)
  show ?thesis
  proof (cases "sim_observation dyn (world c) (oe_model tp) tp")
    case None
    with assms(4) have "c' = ?c1"
      by (auto simp add: observe_one_def Let_def split: if_splits)
    with c1 show ?thesis by simp
  next
    case (Some event)
    let ?r = "\<lambda>v::View. view_processObservationEvent dyn (world c) (v_name v) (Some event)"
    from Some observe_one_Returns [OF assms(4)] obtain v :: View where
      c': "c' = put_observation_opt (fst (?r v)) (?c1\<lparr> world := snd (?r v) \<rparr>)"
      by auto
    from assms(1) have "later_observation (oe_time tp)
                          (sim_observation dyn (world c) (oe_model tp) tp)"
      unfolding causal_def by blast
    with Some have ev: "oe_time tp \<le> oe_time event" by (simp add: later_observation_def)
    from assms(1) have l: "later_observation (oe_time event) (fst (?r v))"
      unfolding causal_def by blast
    have w: "times_ge T (?c1\<lparr> world := snd (?r v) \<rparr>)" using c1 by (rule times_ge_world)
    show ?thesis
    proof (cases "fst (?r v)")
      case None
      with w show ?thesis unfolding c' by (simp add: put_observation_opt_def)
    next
      case (Some e2)
      with l ev assms(3) have "T \<le> oe_time e2" by (simp add: later_observation_def)
      with w Some show ?thesis unfolding c'
        by (simp add: put_observation_opt_def times_ge_def logged_def putObservationEvent_def
                      pending_ge_def bags_ge_def)
    qed
  qed
qed

lemma times_ge_observe_loop:
  assumes "causal dyn"
  shows "times_ge T c \<Longrightarrow> list_all (\<lambda>e. T \<le> oe_time e) evs
           \<Longrightarrow> observe_loop dyn evs c = Returns c' \<Longrightarrow> times_ge T c'"
proof (induction evs arbitrary: c)
  case Nil
  then show ?case by simp
next
  case (Cons tp rest)
  from Cons.prems(3) obtain c1 where 1: "observe_one dyn tp c = Returns c1"
    and 2: "observe_loop dyn rest c1 = Returns c'"
    by (auto dest: obind_Returns)
  from Cons.prems(2) have tp: "T \<le> oe_time tp"
    and rest: "list_all (\<lambda>e. T \<le> oe_time e) rest" by simp_all
  have "times_ge T c1" by (rule times_ge_observe_one [OF assms Cons.prems(1) tp 1])
  then show ?case using rest 2 by (rule Cons.IH)
qed


section \<open>Lemmas on run\<close>

lemma first_bag_None: "list_all (\<lambda>(s, b). bag_empty b) bs \<Longrightarrow> first_bag bs = None"
  by (induction bs) auto

lemma first_bag_None_iff: "(first_bag bs = None) = list_all (\<lambda>(s, b). bag_empty b) bs"
  by (induction bs) (auto split: if_splits)


lemma pop_bags_fields [simp]:
  "trace (pop_bags c) = trace c"
  "m_toDelete (pop_bags c) = m_toDelete c"
  "m_deletedSimulator (pop_bags c) = m_deletedSimulator c"
  "m_modelList (pop_bags c) = m_modelList c"
  by (simp_all add: pop_bags_def Let_def updateCurrentTime_def)


lemma delete_old_fields [simp]:
  "m_eventTable (delete_old k c) = m_eventTable c"
  "m_currentTime (delete_old k c) = m_currentTime c"
  "m_modelList (delete_old k c) = m_modelList c"
  "world (delete_old k c) = world c"
  by (simp_all add: delete_old_def logged_def)


lemma delete_old_zero [simp]: "delete_old 0 c = c"
  by (simp add: delete_old_def)

lemma run_Returns:
  assumes "run n dyn c = Returns c'"
  obtains c3 c5 where
    "drain_bags n dyn (pop_bags c) = Returns c3"
    "observe_loop dyn (et_states (m_eventTable c3)) (delete_old (m_toDelete c) c3) = Returns c5"
    "c' = c5\<lparr> m_eventTable := bags_clear ((m_eventTable c5)\<lparr> et_states := [] \<rparr>) \<rparr>"
proof -
  from assms obtain c3 where 1: "drain_bags n dyn (pop_bags c) = Returns c3"
    and r: "obind (processObservationEvents dyn (delete_old (m_toDelete c) c3))
              (\<lambda>c5. Returns (c5\<lparr> m_eventTable := bags_clear (m_eventTable c5) \<rparr>)) = Returns c'"
    unfolding run_def Let_def by (auto dest: obind_Returns)
  from r obtain c4 where 2: "processObservationEvents dyn (delete_old (m_toDelete c) c3) = Returns c4"
    and 3: "c' = c4\<lparr> m_eventTable := bags_clear (m_eventTable c4) \<rparr>"
    by (auto dest: obind_Returns)
  from 2 obtain c5 where
    4: "observe_loop dyn (et_states (m_eventTable c3)) (delete_old (m_toDelete c) c3) = Returns c5"
    and 5: "c4 = c5\<lparr> m_eventTable := (m_eventTable c5)\<lparr> et_states := [] \<rparr> \<rparr>"
    unfolding processObservationEvents_def by (auto dest: obind_Returns)
  from 3 5 have "c' = c5\<lparr> m_eventTable := bags_clear ((m_eventTable c5)\<lparr> et_states := [] \<rparr>) \<rparr>"
    by simp
  with 1 4 show ?thesis by (rule that)
qed

text \<open>With \<^verbatim>\<open>m_toDelete = 0\<close> a call of \<^verbatim>\<open>run\<close> deletes no simulator and leaves \<^verbatim>\<open>m_toDelete\<close> at 0.\<close>

lemma destroyed_in_append: "destroyed_in (as @ bs) = destroyed_in as @ destroyed_in bs"
  by (induction as rule: destroyed_in.induct) simp_all

lemma destroyed_in_none: "list_all (\<lambda>a. \<not> is_destroy a) as \<Longrightarrow> destroyed_in as = []"
  by (induction as rule: destroyed_in.induct) simp_all

lemma run_toDelete_zero:
  assumes "m_toDelete c = 0" and "run n dyn c = Returns c'"
  shows "m_toDelete c' = 0 \<and> destroyed c' = destroyed c
         \<and> (\<exists>ds. m_deletedSimulator c' = m_deletedSimulator c @ ds)"
proof -
  from assms(2) obtain c3 c5 where
    1: "drain_bags n dyn (pop_bags c) = Returns c3"
    and 2: "observe_loop dyn (et_states (m_eventTable c3)) (delete_old (m_toDelete c) c3)
            = Returns c5"
    and 3: "c' = c5\<lparr> m_eventTable := bags_clear ((m_eventTable c5)\<lparr> et_states := [] \<rparr>) \<rparr>"
    by (rule run_Returns)
  from frame_drain_bags [OF 1] have f: "frame (pop_bags c) c3" .
  from 2 assms(1) have "observe_loop dyn (et_states (m_eventTable c3)) c3 = Returns c5" by simp
  from obs_frame_observe_loop [OF this] have o: "obs_frame c3 c5" by simp
  from f obtain as where as: "trace c3 = trace c @ as" "list_all drain_action as"
    by (auto simp add: frame_def extends_def)
  from o obtain bs where bs: "trace c5 = trace c3 @ bs" "list_all is_observation bs"
    by (auto simp add: obs_frame_def extends_def)
  from as(2) have "list_all (\<lambda>a. \<not> is_destroy a) as"
    by (simp add: list_all_iff drain_action_def)
  then have d1: "destroyed_in as = []" by (rule destroyed_in_none)
  have "\<And>a. is_observation a \<Longrightarrow> \<not> is_destroy a" by (case_tac a) simp_all
  with bs(2) have "list_all (\<lambda>a. \<not> is_destroy a) bs" by (auto simp add: list_all_iff)
  then have d2: "destroyed_in bs = []" by (rule destroyed_in_none)
  have "destroyed c' = destroyed c"
    by (simp add: destroyed_def 3 as bs destroyed_in_append d1 d2)
  moreover have "m_toDelete c' = 0"
    using f o assms(1) by (simp add: 3 frame_def obs_frame_def)
  moreover have "\<exists>ds. m_deletedSimulator c' = m_deletedSimulator c @ ds"
    using f o by (auto simp add: 3 frame_def obs_frame_def)
  ultimately show ?thesis by simp
qed


lemma topEvent_Some:
  assumes "topEvent et = Some t"
  shows "t \<in> set (pending_times et) \<and> (\<forall>x\<in>set (pending_times et). t \<le> x)"
proof -
  from assms obtain t0 ts where p: "pending_times et = t0 # ts" and t: "t = fold min ts t0"
    by (auto simp add: topEvent_def split: list.splits)
  have m: "t = Min (set (t0 # ts))" unfolding t by (rule Min.set_eq_fold [symmetric])
  have "t \<in> set (t0 # ts)" unfolding m by (rule Min_in) simp_all
  moreover have "\<forall>x\<in>set (t0 # ts). t \<le> x" unfolding m by (auto intro: Min_le)
  ultimately show ?thesis by (simp add: p)
qed

lemma pending_ge_mono: "T' \<le> T \<Longrightarrow> pending_ge T et \<Longrightarrow> pending_ge T' et"
  by (auto simp add: pending_ge_def list_all_iff)

lemma bag_ge_mono: "T' \<le> T \<Longrightarrow> bag_ge T b \<Longrightarrow> bag_ge T' b"
  by (auto simp add: bag_ge_def later_internal_def split: option.splits)

lemma bags_ge_mono: "T' \<le> T \<Longrightarrow> bags_ge T et \<Longrightarrow> bags_ge T' et"
  by (auto simp add: bags_ge_def list_all_iff intro: bag_ge_mono)

lemma fold_addInternal_ge:
  "list_all (\<lambda>sb. bag_ge T (snd sb)) bs \<Longrightarrow> list_all (\<lambda>e. T \<le> ie_time e) es
     \<Longrightarrow> list_all (\<lambda>sb. bag_ge T (snd sb)) (fold addInternal es bs)"
proof (induction es arbitrary: bs)
  case Nil
  then show ?case by simp
next
  case (Cons e es)
  from Cons.prems(2) have e: "T \<le> ie_time e" and es: "list_all (\<lambda>e. T \<le> ie_time e) es"
    by simp_all
  have "list_all (\<lambda>sb. bag_ge T (snd sb)) (addInternal e bs)"
    unfolding addInternal_def
    by (rule bag_update_ge [OF Cons.prems(1)]) (simp add: bag_ge_def later_internal_def e)
  then show ?case using es by (simp add: Cons.IH)
qed

lemma popEvent_times:
  assumes "topEvent et = Some t" and "et_bags et = []" and "et_states et = []"
  shows "pending_ge t (popEvent et) \<and> bags_ge t (popEvent et)"
proof -
  from topEvent_Some [OF assms(1)] have le: "\<forall>x\<in>set (pending_times et). t \<le> x" by simp
  then have i: "\<forall>e\<in>set (et_internalEventList et). t \<le> ie_time e"
    and o: "\<forall>e\<in>set (et_observationEventList et). t \<le> oe_time e"
    by (auto simp add: pending_times_def)
  have "list_all (\<lambda>sb. bag_ge t (snd sb))
          (fold addInternal (filter (\<lambda>e. ie_time e = t) (et_internalEventList et)) [])"
    by (rule fold_addInternal_ge) (simp_all add: list_all_iff)
  with i o show ?thesis
    by (simp add: popEvent_def assms pending_ge_def bags_ge_def list_all_iff)
qed

lemma pop_bags_times:
  assumes "table_inv c"
  shows "m_currentTime c \<le> m_currentTime (pop_bags c)
         \<and> times_ge (m_currentTime (pop_bags c)) (pop_bags c)"
proof (cases "topEvent (m_eventTable c)")
  case None
  then have "popEvent (m_eventTable c) = m_eventTable c" by (simp add: popEvent_def)
  moreover from assms have "bags_empty (m_eventTable c)"
    by (simp add: table_inv_def bags_empty_def emptyBag_def emptyStates_def)
  ultimately have "pop_bags c = c" by (simp add: pop_bags_def Let_def)
  with assms show ?thesis
    by (simp add: table_inv_def times_ge_def bags_ge_def)
next
  case (Some t)
  from assms have b: "et_bags (m_eventTable c) = []" "et_states (m_eventTable c) = []"
    and p: "pending_ge (m_currentTime c) (m_eventTable c)"
    by (simp_all add: table_inv_def)
  from topEvent_Some [OF Some] have "t \<in> set (pending_times (m_eventTable c))" by simp
  with p have le: "m_currentTime c \<le> t"
    by (auto simp add: pending_ge_def pending_times_def list_all_iff)
  note pt = popEvent_times [OF Some b]
  show ?thesis
  proof (cases "bags_empty (popEvent (m_eventTable c))")
    case True
    then have "pop_bags c = c\<lparr> m_eventTable := popEvent (m_eventTable c) \<rparr>"
      by (simp add: pop_bags_def Let_def)
    with pt le show ?thesis
      by (auto simp add: times_ge_def intro: pending_ge_mono bags_ge_mono)
  next
    case False
    then have "pop_bags c = updateCurrentTime (et_currentTime (popEvent (m_eventTable c)))
                              (c\<lparr> m_eventTable := popEvent (m_eventTable c) \<rparr>)"
      by (simp add: pop_bags_def Let_def)
    moreover have "et_currentTime (popEvent (m_eventTable c)) = t"
      by (simp add: popEvent_def Some)
    ultimately show ?thesis using pt le
      by (simp add: times_ge_def updateCurrentTime_def)
  qed
qed

lemma times_ge_delete_old: "times_ge T c \<Longrightarrow> times_ge T (delete_old k c)"
  by (simp add: times_ge_def)

lemma run_time_step:
  assumes "causal dyn" and "table_inv c" and "run n dyn c = Returns c'"
  shows "m_currentTime c \<le> m_currentTime c' \<and> table_inv c'"
proof -
  from assms(3) obtain c3 c5 where
    1: "drain_bags n dyn (pop_bags c) = Returns c3"
    and 2: "observe_loop dyn (et_states (m_eventTable c3)) (delete_old (m_toDelete c) c3)
            = Returns c5"
    and 3: "c' = c5\<lparr> m_eventTable := bags_clear ((m_eventTable c5)\<lparr> et_states := [] \<rparr>) \<rparr>"
    by (rule run_Returns)
  let ?T = "m_currentTime (pop_bags c)"
  from pop_bags_times [OF assms(2)] have le: "m_currentTime c \<le> ?T"
    and t0: "times_ge ?T (pop_bags c)" by simp_all
  have t3: "times_ge ?T c3" by (rule times_ge_drain_bags [OF assms(1) t0 1])
  then have t4: "times_ge ?T (delete_old (m_toDelete c) c3)" by (rule times_ge_delete_old)
  from t3 have "list_all (\<lambda>e. ?T \<le> oe_time e) (et_states (m_eventTable c3))"
    by (simp add: times_ge_def bags_ge_def)
  with t4 have t5: "times_ge ?T c5" using 2 by (rule times_ge_observe_loop [OF assms(1)])
  then show ?thesis using le
    by (simp add: 3 times_ge_def table_inv_def bags_clear_def pending_ge_def)
qed

lemma run_empty_bag:
  assumes "bags_empty (popEvent (m_eventTable c))" and "run n dyn c = Returns c'"
  shows "m_currentTime c' = m_currentTime c \<and> m_modelList c' = m_modelList c
         \<and> world c' = world c"
proof -
  from assms(2) obtain c3 c5 where
    1: "drain_bags n dyn (pop_bags c) = Returns c3"
    and 2: "observe_loop dyn (et_states (m_eventTable c3)) (delete_old (m_toDelete c) c3)
            = Returns c5"
    and 3: "c' = c5\<lparr> m_eventTable := bags_clear ((m_eventTable c5)\<lparr> et_states := [] \<rparr>) \<rparr>"
    by (rule run_Returns)
  from assms(1) have p: "pop_bags c = c\<lparr> m_eventTable := popEvent (m_eventTable c) \<rparr>"
    by (simp add: pop_bags_def Let_def)
  from assms(1) have "topBag (m_eventTable (pop_bags c)) = None"
    by (simp add: p topBag_def bags_empty_def emptyBag_def first_bag_None)
  with 1 have c3: "c3 = pop_bags c" by (cases n) simp_all
  from assms(1) have "et_states (m_eventTable c3) = []"
    by (simp add: c3 p bags_empty_def emptyStates_def)
  with 2 have "c5 = delete_old (m_toDelete c) c3" by simp
  then show ?thesis by (simp add: 3 c3 p)
qed

lemma runs_time:
  assumes "causal dyn"
  shows "table_inv c \<Longrightarrow> runs k n dyn c = Returns c'
           \<Longrightarrow> m_currentTime c \<le> m_currentTime c' \<and> table_inv c'"
proof (induction k arbitrary: c)
  case 0
  then show ?case by simp
next
  case (Suc k)
  from Suc.prems(2) obtain c1 where 1: "run n dyn c = Returns c1"
    and 2: "runs k n dyn c1 = Returns c'"
    by (auto dest: obind_Returns)
  from run_time_step [OF assms Suc.prems(1) 1]
  have a: "m_currentTime c \<le> m_currentTime c1" and b: "table_inv c1" by simp_all
  from Suc.IH [OF b 2] a show ?case by simp
qed

section \<open>Lemmas on routing\<close>

lemma bag_of_update_same: "bag_of s (bag_update s f bs) = f (bag_of s bs)"
  by (induction bs) auto

lemma bag_of_update_other: "s' \<noteq> s \<Longrightarrow> bag_of s' (bag_update s f bs) = bag_of s' bs"
  by (induction bs) auto

lemma deleted_in_append: "deleted_in (as @ bs) = deleted_in as @ deleted_in bs"
  by (induction as rule: deleted_in.induct) simp_all

lemma put_events_in_append: "put_events_in (as @ bs) = put_events_in as @ put_events_in bs"
  by (induction as rule: put_events_in.induct) simp_all

lemma grows_refl: "grows c c"
  by (simp add: grows_def)

lemma grows_trans:
  assumes "grows a b" and "grows b c"
  shows "grows a c"
proof -
  have "\<And>s. set (bag_externals (current_bag a s)) \<subseteq> set (bag_externals (current_bag c s))"
    using assms unfolding grows_def by (blast intro: subset_trans)
  moreover
  have "\<And>s. set (bag_requests (current_bag a s)) \<subseteq> set (bag_requests (current_bag c s))"
    using assms unfolding grows_def by (blast intro: subset_trans)
  ultimately show ?thesis using assms by (simp add: grows_def)
qed

lemma getModel_grows: "grows c c' \<Longrightarrow> getModel c' = getModel c"
  by (simp add: grows_def getModel_def fun_eq_iff)

lemma waiting_in_grows: "grows c c' \<Longrightarrow> waiting_in c e \<Longrightarrow> waiting_in c' e"
  by (auto simp add: grows_def waiting_in_def split: if_splits)

lemma grows_logged: "grows c (logged as c)"
  by (simp add: grows_def logged_def current_bag_def)

lemma route_one_grows: "grows c (route_one e jt c)"
proof -
  have "\<And>s s' f. set (bag_externals (bag_of s (et_bags (m_eventTable c))))
          \<subseteq> set (bag_externals (bag_of s (bag_update s'
               (\<lambda>b. b\<lparr> bag_externals := bag_externals b @ [f] \<rparr>) (et_bags (m_eventTable c)))))"
    by (case_tac "s = s'") (auto simp add: bag_of_update_same bag_of_update_other)
  moreover have "\<And>s s' f. set (bag_requests (bag_of s (et_bags (m_eventTable c))))
          \<subseteq> set (bag_requests (bag_of s (bag_update s'
               (\<lambda>b. b\<lparr> bag_requests := bag_requests b @ [f] \<rparr>) (et_bags (m_eventTable c)))))"
    by (case_tac "s = s'") (auto simp add: bag_of_update_same bag_of_update_other)
  moreover have "\<And>s s' f. bag_requests (bag_of s (bag_update s'
               (\<lambda>b. b\<lparr> bag_externals := bag_externals b @ [f] \<rparr>) (et_bags (m_eventTable c))))
          = bag_requests (bag_of s (et_bags (m_eventTable c)))"
    by (case_tac "s = s'") (auto simp add: bag_of_update_same bag_of_update_other)
  moreover have "\<And>s s' f. bag_externals (bag_of s (bag_update s'
               (\<lambda>b. b\<lparr> bag_requests := bag_requests b @ [f] \<rparr>) (et_bags (m_eventTable c))))
          = bag_externals (bag_of s (et_bags (m_eventTable c)))"
    by (case_tac "s = s'") (auto simp add: bag_of_update_same bag_of_update_other)
  ultimately show ?thesis
    by (simp add: grows_def route_one_def Let_def logged_def current_bag_def
                  putRequestEvent_def putExternalEvent_def)
qed

lemma route_one_trace:
  "trace (route_one e jt c) = trace c @ [put_action (copy_event e (getModel c (fst jt)) (snd jt))]"
  by (simp add: route_one_def Let_def put_action_def copy_event_def)

lemma route_one_waiting:
  "waiting_in (route_one e jt c) (copy_event e (getModel c (fst jt)) (snd jt))"
  by (simp add: route_one_def Let_def waiting_in_def copy_event_def logged_def current_bag_def
                putRequestEvent_def putExternalEvent_def bag_of_update_same)

lemma fold_route_one:
  "grows c (fold (route_one e) out c)
   \<and> trace (fold (route_one e) out c)
       = trace c @ map (\<lambda>d. put_action (copy_event e (getModel c (fst d)) (snd d))) out
   \<and> (\<forall>d\<in>set out. waiting_in (fold (route_one e) out c)
                       (copy_event e (getModel c (fst d)) (snd d)))"
proof (induction out arbitrary: c)
  case Nil
  show ?case by (simp add: grows_refl)
next
  case (Cons d out)
  let ?c1 = "route_one e d c"
  note g1 = route_one_grows [of c e d]
  note gm = getModel_grows [OF g1]
  from Cons.IH [of ?c1] have g2: "grows ?c1 (fold (route_one e) out ?c1)"
    and t2: "trace (fold (route_one e) out ?c1)
               = trace ?c1 @ map (\<lambda>d. put_action (copy_event e (getModel ?c1 (fst d)) (snd d))) out"
    and w2: "\<forall>d\<in>set out. waiting_in (fold (route_one e) out ?c1)
                             (copy_event e (getModel ?c1 (fst d)) (snd d))"
    by simp_all
  have "grows c (fold (route_one e) (d # out) c)"
    using grows_trans [OF g1 g2] by simp
  moreover have "trace (fold (route_one e) (d # out) c)
       = trace c @ map (\<lambda>d. put_action (copy_event e (getModel c (fst d)) (snd d))) (d # out)"
    using t2 by (simp add: gm route_one_trace)
  moreover have "\<forall>x\<in>set (d # out). waiting_in (fold (route_one e) (d # out) c)
                       (copy_event e (getModel c (fst x)) (snd x))"
    using w2 waiting_in_grows [OF g2 route_one_waiting [of e d c]] by (simp add: gm)
  ultimately show ?case by blast
qed

lemma dispatch_one_facts:
  "grows c (dispatch_one sim ev c)
   \<and> trace (dispatch_one sim ev c)
       = trace c @ map (\<lambda>d. put_action (routed_copy c sim ev d)) (destinations c sim ev)
           @ [DeleteEvent (ev\<lparr> ee_model := sim \<rparr>)]
   \<and> (\<forall>d\<in>set (destinations c sim ev). waiting_in (dispatch_one sim ev c) (routed_copy c sim ev d))"
proof -
  let ?e = "ev\<lparr> ee_model := sim \<rparr>"
  let ?out = "destinations c sim ev"
  let ?c1 = "fold (route_one ?e) ?out c"
  have d: "dispatch_one sim ev c = logged [DeleteEvent ?e] ?c1"
    by (simp add: dispatch_one_def destinations_def Let_def)
  from fold_route_one [of c ?e ?out] have g: "grows c ?c1"
    and t: "trace ?c1 = trace c @ map (\<lambda>d. put_action (routed_copy c sim ev d)) ?out"
    and w: "\<forall>d\<in>set ?out. waiting_in ?c1 (routed_copy c sim ev d)"
    by (simp_all add: routed_copy_def)
  have g2: "grows ?c1 (logged [DeleteEvent ?e] ?c1)" by (rule grows_logged)
  have "grows c (dispatch_one sim ev c)" unfolding d by (rule grows_trans [OF g g2])
  moreover have "\<forall>d\<in>set ?out. waiting_in (dispatch_one sim ev c) (routed_copy c sim ev d)"
    unfolding d using w waiting_in_grows [OF g2] by blast
  ultimately show ?thesis by (simp add: d t)
qed

lemma routed_copy_grows: "grows c c' \<Longrightarrow> routed_copy c' = routed_copy c"
  by (simp add: routed_copy_def fun_eq_iff getModel_grows)

lemma destinations_grows: "grows c c' \<Longrightarrow> destinations c' = destinations c"
  by (simp add: destinations_def fun_eq_iff grows_def)

lemma dispatchExternalEvent_facts:
  "grows c (dispatchExternalEvent es sim c)
   \<and> trace (dispatchExternalEvent es sim c)
       = trace c @ concat (map (\<lambda>ev. map (\<lambda>d. put_action (routed_copy c sim ev d))
                                       (destinations c sim ev)
                                   @ [DeleteEvent (ev\<lparr> ee_model := sim \<rparr>)]) es)
   \<and> (\<forall>ev\<in>set es. \<forall>d\<in>set (destinations c sim ev).
         waiting_in (dispatchExternalEvent es sim c) (routed_copy c sim ev d))"
proof (induction es arbitrary: c)
  case Nil
  show ?case by (simp add: dispatchExternalEvent_def grows_refl)
next
  case (Cons ev es)
  let ?c1 = "dispatch_one sim ev c"
  have u: "dispatchExternalEvent (ev # es) sim c = dispatchExternalEvent es sim ?c1"
    by (simp add: dispatchExternalEvent_def)
  from dispatch_one_facts [of c sim ev] have g1: "grows c ?c1"
    and t1: "trace ?c1 = trace c @ map (\<lambda>d. put_action (routed_copy c sim ev d))
                                       (destinations c sim ev)
                           @ [DeleteEvent (ev\<lparr> ee_model := sim \<rparr>)]"
    and w1: "\<forall>d\<in>set (destinations c sim ev). waiting_in ?c1 (routed_copy c sim ev d)"
    by simp_all
  note rc = routed_copy_grows [OF g1] and ds = destinations_grows [OF g1]
  from Cons.IH [of ?c1] have g2: "grows ?c1 (dispatchExternalEvent es sim ?c1)"
    and t2: "trace (dispatchExternalEvent es sim ?c1)
       = trace ?c1 @ concat (map (\<lambda>ev. map (\<lambda>d. put_action (routed_copy c sim ev d))
                                       (destinations c sim ev)
                                   @ [DeleteEvent (ev\<lparr> ee_model := sim \<rparr>)]) es)"
    and w2: "\<forall>ev\<in>set es. \<forall>d\<in>set (destinations c sim ev).
               waiting_in (dispatchExternalEvent es sim ?c1) (routed_copy c sim ev d)"
    by (simp_all add: rc ds)
  have "grows c (dispatchExternalEvent (ev # es) sim c)"
    unfolding u by (rule grows_trans [OF g1 g2])
  moreover have "trace (dispatchExternalEvent (ev # es) sim c)
       = trace c @ concat (map (\<lambda>ev. map (\<lambda>d. put_action (routed_copy c sim ev d))
                                       (destinations c sim ev)
                                   @ [DeleteEvent (ev\<lparr> ee_model := sim \<rparr>)]) (ev # es))"
    unfolding u by (simp add: t2 t1)
  moreover have "\<forall>x\<in>set (ev # es). \<forall>d\<in>set (destinations c sim x).
         waiting_in (dispatchExternalEvent (ev # es) sim c) (routed_copy c sim x d)"
    unfolding u using w2 w1 waiting_in_grows [OF g2] by auto
  ultimately show ?case by blast
qed

section \<open>Lemmas on the order of the calls\<close>

lemma put_events_in_map:
  "put_events_in (map (\<lambda>d. put_action (f d)) ds) = map f ds"
  by (induction ds) (simp_all add: put_action_def)

lemma deleted_in_map: "deleted_in (map (\<lambda>d. put_action (f d)) ds) = []"
  by (induction ds) (simp_all add: put_action_def)

lemma is_route_map: "list_all is_route (map (\<lambda>d. put_action (f d)) ds)"
  by (induction ds) (simp_all add: put_action_def)

lemma routing_trace:
  "put_events_in (concat (map (\<lambda>ev. map (\<lambda>d. put_action (f ev d)) (g ev) @ [DeleteEvent (h ev)]) es))
     = concat (map (\<lambda>ev. map (f ev) (g ev)) es)
   \<and> deleted_in (concat (map (\<lambda>ev. map (\<lambda>d. put_action (f ev d)) (g ev) @ [DeleteEvent (h ev)]) es))
     = map h es
   \<and> list_all is_route
       (concat (map (\<lambda>ev. map (\<lambda>d. put_action (f ev d)) (g ev) @ [DeleteEvent (h ev)]) es))"
  by (induction es)
     (simp_all add: put_events_in_append deleted_in_append put_events_in_map deleted_in_map
                    is_route_map)

lemma apply_execs_clear: "apply_execs xs c = Returns c' \<Longrightarrow> extends is_clear c c'"
proof (induction xs arbitrary: c)
  case Nil
  then show ?case by (simp add: extends_refl)
next
  case (Cons x xs)
  obtain mdl where x: "x = DelModel mdl" by (cases x)
  from Cons.prems x obtain c1 where 1: "delModel mdl c = Returns c1"
    and 2: "apply_execs xs c1 = Returns c'"
    by (auto dest: obind_Returns)
  from 1 have "extends is_clear c c1"
    by (auto simp add: delModel_def delAtomicModel_def extends_def
             split: if_splits option.splits)
  then show ?case using Cons.IH [OF 2] by (rule extends_trans)
qed

lemma callback_trace:
  assumes "apply_execs xs (logged [a] (c\<lparr> world := w \<rparr>)) = Returns c'"
  shows "\<exists>A. trace c' = trace c @ [a] @ A \<and> list_all is_clear A"
  using apply_execs_clear [OF assms] by (auto simp add: extends_def)

lemma output_block_trace:
  assumes "output_block dyn sim c = Returns c'"
  shows "\<exists>A B. trace c' = trace c @ [CallOutput sim (m_currentTime c)] @ A @ B
           \<and> list_all is_clear A \<and> list_all is_route B
           \<and> deleted_in B = map (\<lambda>e. e\<lparr> ee_model := sim \<rparr>)
                                (fst (sim_output dyn (world c) sim (m_currentTime c)))"
proof -
  let ?r = "sim_output dyn (world c) sim (m_currentTime c)"
  from assms obtain c2 where
    1: "apply_execs (fst (snd ?r))
          (logged [CallOutput sim (m_currentTime c)] (c\<lparr> world := snd (snd ?r) \<rparr>))
        = Returns c2"
    and 2: "c' = dispatchExternalEvent (fst ?r) sim c2"
    unfolding output_block_def Let_def by (auto dest: obind_Returns)
  from callback_trace [OF 1] obtain A where
    A: "trace c2 = trace c @ [CallOutput sim (m_currentTime c)] @ A" "list_all is_clear A"
    by blast
  let ?B = "concat (map (\<lambda>ev. map (\<lambda>d. put_action (routed_copy c2 sim ev d))
                                   (destinations c2 sim ev)
                               @ [DeleteEvent (ev\<lparr> ee_model := sim \<rparr>)]) (fst ?r))"
  from dispatchExternalEvent_facts [of c2 "fst ?r" sim]
  have t: "trace c' = trace c2 @ ?B" by (simp add: 2)
  from routing_trace [of "routed_copy c2 sim" "destinations c2 sim"
                         "\<lambda>ev. ev\<lparr> ee_model := sim \<rparr>" "fst ?r"]
  have "list_all is_route ?B" and "deleted_in ?B = map (\<lambda>e. e\<lparr> ee_model := sim \<rparr>) (fst ?r)"
    by simp_all
  with A t show ?thesis by auto
qed

lemma put_internal_opt_facts:
  "trace (put_internal_opt i c) = trace c @ put_internal_action i
   \<and> scheduled (put_internal_opt i c) i"
  by (cases i)
     (simp_all add: put_internal_opt_def put_internal_action_def scheduled_def logged_def
                    putInternalEvent_def)

lemma internal_block_trace:
  assumes "internal_block dyn sim ev c = Returns c'"
  shows "\<exists>C. trace c' = trace c @ [CallInternalTransition sim ev] @ C
                 @ put_internal_action (fst (sim_internalTransition dyn (world c) sim ev))
           \<and> list_all is_clear C
           \<and> scheduled c' (fst (sim_internalTransition dyn (world c) sim ev))"
proof -
  let ?i = "sim_internalTransition dyn (world c) sim ev"
  from assms obtain c2 where
    1: "apply_execs (fst (snd ?i))
          (logged [CallInternalTransition sim ev] (c\<lparr> world := snd (snd ?i) \<rparr>))
        = Returns c2"
    and 2: "c' = put_internal_opt (fst ?i) c2"
    unfolding internal_block_def Let_def by (auto dest: obind_Returns)
  from callback_trace [OF 1] obtain C where
    "trace c2 = trace c @ [CallInternalTransition sim ev] @ C" "list_all is_clear C"
    by blast
  with put_internal_opt_facts [of "fst ?i" c2] show ?thesis by (auto simp add: 2)
qed

lemma external_block_trace:
  assumes "external_block dyn sim c = Returns c'"
  shows "\<exists>C i. trace c' = trace c @ [CallExternalTransition sim (m_currentTime c)] @ C
                   @ put_internal_action i
           \<and> list_all is_clear C"
proof -
  let ?i = "sim_externalTransition dyn (world c) sim (bag_externals (current_bag c sim))
              (m_currentTime c)"
  from assms obtain c2 where
    1: "apply_execs (fst (snd ?i))
          (logged [CallExternalTransition sim (m_currentTime c)]
             (c\<lparr> world := snd (snd ?i) \<rparr>)) = Returns c2"
    and 2: "c' = put_internal_opt (fst ?i) c2"
    unfolding external_block_def Let_def by (auto dest: obind_Returns)
  from callback_trace [OF 1] obtain C where
    "trace c2 = trace c @ [CallExternalTransition sim (m_currentTime c)] @ C"
    "list_all is_clear C"
    by blast
  with put_internal_opt_facts [of "fst ?i" c2] show ?thesis by (auto simp add: 2)
qed

lemma notify_fold:
  assumes "\<And>x c. m_eventTable (f x c) = m_eventTable c \<and> extends is_notify c (f x c)"
  shows "m_eventTable (fold f xs c) = m_eventTable c \<and> extends is_notify c (fold f xs c)"
proof (induction xs arbitrary: c)
  case Nil
  show ?case by (simp add: extends_refl)
next
  case (Cons x xs)
  from assms [of x c] Cons.IH [of "f x c"] show ?case
    by (auto intro: extends_trans)
qed

lemma notify_one_facts:
  "m_eventTable (notify_one dyn model t v port c) = m_eventTable c
   \<and> extends is_notify c (notify_one dyn model t v port c)"
  by (simp add: notify_one_def Let_def logged_def extends_def)

lemma processEventView_facts:
  "m_eventTable (processEventView dyn model event c) = m_eventTable c
   \<and> extends is_notify c (processEventView dyn model event c)"
  unfolding processEventView_def Let_def
  by (rule notify_fold) (rule notify_fold, rule notify_one_facts)


lemma processInternalEvent_trace:
  assumes "bag_internal (current_bag c sim) = Some ev"
    and "processInternalEvent dyn sim c = Returns c'"
  shows "\<exists>c3 A B C D.
           output_block dyn sim (bag_modify sim delInternal c) = Returns c3
           \<and> new_actions c c'
               = [CallOutput sim (m_currentTime c)] @ A @ B
                 @ [CallInternalTransition sim ev] @ C
                 @ put_internal_action (fst (sim_internalTransition dyn (world c3) sim ev))
                 @ D
           \<and> list_all is_clear A
           \<and> list_all is_route B
           \<and> deleted_in B = map (\<lambda>e. e\<lparr> ee_model := sim \<rparr>)
                                (fst (sim_output dyn (world c) sim (m_currentTime c)))
           \<and> list_all is_clear C
           \<and> list_all is_notify D
           \<and> scheduled c' (fst (sim_internalTransition dyn (world c3) sim ev))"
proof -
  from assms(2) obtain ev' c3 c6 where
    0: "bag_internal (current_bag c sim) = Some ev'"
    and 1: "output_block dyn sim (bag_modify sim delInternal c) = Returns c3"
    and 2: "internal_block dyn sim ev' c3 = Returns c6"
    and 3: "c' = processEventView dyn sim (Some ev') c6"
    by (rule processInternalEvent_Returns)
  from 0 assms(1) have ev: "ev' = ev" by simp
  let ?c0 = "bag_modify sim delInternal c"
  let ?i = "fst (sim_internalTransition dyn (world c3) sim ev)"
  have c0: "trace ?c0 = trace c" "m_currentTime ?c0 = m_currentTime c" "world ?c0 = world c"
    by (simp_all add: bag_modify_def)
  from output_block_trace [OF 1] obtain A B where
    t3: "trace c3 = trace c @ [CallOutput sim (m_currentTime c)] @ A @ B"
    and A: "list_all is_clear A" and B: "list_all is_route B"
    and dl: "deleted_in B = map (\<lambda>e. e\<lparr> ee_model := sim \<rparr>)
                               (fst (sim_output dyn (world c) sim (m_currentTime c)))"
    unfolding c0 by blast
  from internal_block_trace [OF 2] obtain C where
    t6: "trace c6 = trace c3 @ [CallInternalTransition sim ev] @ C @ put_internal_action ?i"
    and C: "list_all is_clear C" and s6: "scheduled c6 ?i"
    unfolding ev by blast
  from processEventView_facts [of dyn sim "Some ev'" c6] obtain D where
    t': "trace c' = trace c6 @ D" and D: "list_all is_notify D"
    and e': "m_eventTable c' = m_eventTable c6"
    unfolding 3 by (auto simp add: extends_def)
  have "trace c' = trace c @ ([CallOutput sim (m_currentTime c)] @ A @ B
                 @ [CallInternalTransition sim ev] @ C @ put_internal_action ?i @ D)"
    by (simp add: t' t6 t3)
  then have n: "new_actions c c' = [CallOutput sim (m_currentTime c)] @ A @ B
                 @ [CallInternalTransition sim ev] @ C @ put_internal_action ?i @ D"
    by (rule new_actions_append)
  from s6 have s': "scheduled c' ?i" unfolding scheduled_def e' .
  have "output_block dyn sim (bag_modify sim delInternal c) = Returns c3
           \<and> new_actions c c'
               = [CallOutput sim (m_currentTime c)] @ A @ B
                 @ [CallInternalTransition sim ev] @ C @ put_internal_action ?i @ D
           \<and> list_all is_clear A \<and> list_all is_route B
           \<and> deleted_in B = map (\<lambda>e. e\<lparr> ee_model := sim \<rparr>)
                                (fst (sim_output dyn (world c) sim (m_currentTime c)))
           \<and> list_all is_clear C \<and> list_all is_notify D \<and> scheduled c' ?i"
    using 1 n A B dl C D s' by (intro conjI)
  then show ?thesis by blast
qed


lemma no_calls:
  "list_all (\<lambda>a. is_clear a \<or> is_route a \<or> is_notify a) xs
     \<Longrightarrow> \<not> list_ex is_internal_call xs \<and> \<not> list_ex is_external_call xs
         \<and> \<not> list_ex is_request_call xs \<and> \<not> list_ex is_confluent_call xs"
proof (induction xs)
  case Nil
  show ?case by simp
next
  case (Cons a xs)
  then show ?case by (cases a) simp_all
qed

lemma no_calls_weaken:
  "list_all P xs \<Longrightarrow> (\<And>a. P a \<Longrightarrow> is_clear a \<or> is_route a \<or> is_notify a)
     \<Longrightarrow> \<not> list_ex is_internal_call xs \<and> \<not> list_ex is_external_call xs
         \<and> \<not> list_ex is_request_call xs \<and> \<not> list_ex is_confluent_call xs"
  by (rule no_calls) (auto simp add: list_all_iff)

lemma no_calls_put_internal:
  "\<not> list_ex is_internal_call (put_internal_action i)
   \<and> \<not> list_ex is_external_call (put_internal_action i)
   \<and> \<not> list_ex is_request_call (put_internal_action i)
   \<and> \<not> list_ex is_confluent_call (put_internal_action i)"
  by (cases i) (simp_all add: put_internal_action_def)

lemma internal_path_calls:
  assumes "processInternalEvent dyn sim c = Returns c'"
  shows "\<exists>as. trace c' = trace c @ as
           \<and> list_ex is_internal_call as \<and> \<not> list_ex is_external_call as
           \<and> \<not> list_ex is_request_call as \<and> \<not> list_ex is_confluent_call as"
proof -
  from assms obtain ev where ev: "bag_internal (current_bag c sim) = Some ev"
    by (auto simp add: processInternalEvent_def split: option.splits)
  from processInternalEvent_trace [OF ev assms] obtain c3 A B C D where
    "output_block dyn sim (bag_modify sim delInternal c) = Returns c3"
    and n: "new_actions c c' = [CallOutput sim (m_currentTime c)] @ A @ B
          @ [CallInternalTransition sim ev] @ C
          @ put_internal_action (fst (sim_internalTransition dyn (world c3) sim ev)) @ D"
    and l: "list_all is_clear A" "list_all is_route B" "list_all is_clear C"
      "list_all is_notify D"
    by blast
  from frame_processInternalEvent [OF assms] have "extends drain_action c c'"
    by (simp add: frame_def)
  then have t: "trace c' = trace c @ new_actions c c'" by (rule extends_trace)
  note a = no_calls_weaken [OF l(1)] and b = no_calls_weaken [OF l(2)]
    and c = no_calls_weaken [OF l(3)] and d = no_calls_weaken [OF l(4)]
    and p = no_calls_put_internal [of "fst (sim_internalTransition dyn (world c3) sim ev)"]
  have "list_ex is_internal_call (new_actions c c')
        \<and> \<not> list_ex is_external_call (new_actions c c')
        \<and> \<not> list_ex is_request_call (new_actions c c')
        \<and> \<not> list_ex is_confluent_call (new_actions c c')"
    unfolding n using a b c d p by simp
  with t show ?thesis by blast
qed

lemma external_path_calls:
  assumes "processExternalEvents dyn sim c = Returns c'"
  shows "\<exists>as. trace c' = trace c @ as
           \<and> \<not> list_ex is_internal_call as \<and> list_ex is_external_call as
           \<and> \<not> list_ex is_request_call as \<and> \<not> list_ex is_confluent_call as"
proof -
  from assms obtain c3 where 1: "external_block dyn sim c = Returns c3"
    and 2: "c' = processEventView dyn sim None (bag_modify sim delExternals c3)"
    unfolding processExternalEvents_def by (auto dest: obind_Returns)
  from external_block_trace [OF 1] obtain C i where
    t3: "trace c3 = trace c @ [CallExternalTransition sim (m_currentTime c)] @ C
                      @ put_internal_action i"
    and C: "list_all is_clear C" by blast
  from processEventView_facts [of dyn sim None "bag_modify sim delExternals c3"]
  obtain D where t': "trace c' = trace (bag_modify sim delExternals c3) @ D"
    and D: "list_all is_notify D"
    unfolding 2 by (auto simp add: extends_def)
  have tb: "trace (bag_modify sim delExternals c3) = trace c3" by (simp add: bag_modify_def)
  note c = no_calls_weaken [OF C] and d = no_calls_weaken [OF D]
    and p = no_calls_put_internal [of i]
  let ?as = "[CallExternalTransition sim (m_currentTime c)] @ C @ put_internal_action i @ D"
  have "trace c' = trace c @ ?as" by (simp add: t' tb t3)
  moreover have "\<not> list_ex is_internal_call ?as \<and> list_ex is_external_call ?as
           \<and> \<not> list_ex is_request_call ?as \<and> \<not> list_ex is_confluent_call ?as"
    using c d p by simp
  ultimately show ?thesis by blast
qed

lemma request_one_calls:
  assumes "request_one dyn sim ev c = Returns c'"
  shows "\<exists>as. trace c' = trace c @ as
           \<and> \<not> list_ex is_internal_call as \<and> \<not> list_ex is_external_call as
           \<and> list_ex is_request_call as \<and> \<not> list_ex is_confluent_call as"
proof -
  let ?r = "sim_request dyn (world c) sim ev (m_currentTime c)"
  from assms obtain c2 where
    1: "apply_execs (fst (snd ?r)) (logged [CallRequest sim ev] (c\<lparr> world := snd (snd ?r) \<rparr>))
        = Returns c2"
    and 2: "c' = dispatchExternalEvent (fst ?r) sim c2"
    unfolding request_one_def Let_def by (auto dest: obind_Returns)
  from callback_trace [OF 1] obtain A where
    A: "trace c2 = trace c @ [CallRequest sim ev] @ A" "list_all is_clear A"
    by blast
  let ?B = "concat (map (\<lambda>ev. map (\<lambda>d. put_action (routed_copy c2 sim ev d))
                                   (destinations c2 sim ev)
                               @ [DeleteEvent (ev\<lparr> ee_model := sim \<rparr>)]) (fst ?r))"
  from dispatchExternalEvent_facts [of c2 "fst ?r" sim]
  have t: "trace c' = trace c2 @ ?B" by (simp add: 2)
  from routing_trace [of "routed_copy c2 sim" "destinations c2 sim"
                         "\<lambda>ev. ev\<lparr> ee_model := sim \<rparr>" "fst ?r"]
  have B: "list_all is_route ?B" by simp
  note a = no_calls_weaken [OF A(2)] and b = no_calls_weaken [OF B]
  let ?as = "[CallRequest sim ev] @ A @ ?B"
  have "trace c' = trace c @ ?as" by (simp add: t A(1))
  moreover have "\<not> list_ex is_internal_call ?as \<and> \<not> list_ex is_external_call ?as
           \<and> list_ex is_request_call ?as \<and> \<not> list_ex is_confluent_call ?as"
    using a b by simp
  ultimately show ?thesis by blast
qed

lemma request_loop_calls:
  "request_loop dyn sim evs c = Returns c'
     \<Longrightarrow> \<exists>as. trace c' = trace c @ as
           \<and> \<not> list_ex is_internal_call as \<and> \<not> list_ex is_external_call as
           \<and> (list_ex is_request_call as = (evs \<noteq> []))
           \<and> \<not> list_ex is_confluent_call as"
proof (induction evs arbitrary: c)
  case Nil
  then show ?case by simp
next
  case (Cons ev evs)
  from Cons.prems obtain c1 where 1: "request_one dyn sim ev c = Returns c1"
    and 2: "request_loop dyn sim evs c1 = Returns c'"
    by (auto dest: obind_Returns)
  from request_one_calls [OF 1] obtain as where
    a: "trace c1 = trace c @ as" "\<not> list_ex is_internal_call as"
      "\<not> list_ex is_external_call as" "list_ex is_request_call as"
      "\<not> list_ex is_confluent_call as"
    by blast
  from Cons.IH [OF 2] obtain bs where
    b: "trace c' = trace c1 @ bs" "\<not> list_ex is_internal_call bs"
      "\<not> list_ex is_external_call bs" "\<not> list_ex is_confluent_call bs"
    by blast
  have "trace c' = trace c @ (as @ bs)" by (simp add: a(1) b(1))
  moreover have "\<not> list_ex is_internal_call (as @ bs) \<and> \<not> list_ex is_external_call (as @ bs)
           \<and> (list_ex is_request_call (as @ bs) = (ev # evs \<noteq> []))
           \<and> \<not> list_ex is_confluent_call (as @ bs)"
    using a b by simp
  ultimately show ?case by blast
qed

lemma request_path_calls:
  assumes "processRequestEvents dyn sim c = Returns c'"
  shows "\<exists>as. trace c' = trace c @ as
           \<and> \<not> list_ex is_internal_call as \<and> \<not> list_ex is_external_call as
           \<and> (list_ex is_request_call as = (\<not> emptyRequest (current_bag c sim)))
           \<and> \<not> list_ex is_confluent_call as"
proof -
  from assms obtain c1 where
    1: "request_loop dyn sim (bag_requests (current_bag c sim)) c = Returns c1"
    and 2: "c' = bag_modify sim delRequest c1"
    unfolding processRequestEvents_def by (auto dest: obind_Returns)
  have "trace c' = trace c1" by (simp add: 2 bag_modify_def)
  with request_loop_calls [OF 1] show ?thesis by (simp add: emptyRequest_def)
qed

section \<open>Lemmas on deletion\<close>

lemma bag_update_clean:
  assumes "\<not> list_ex (bag_mentions s) bs" and "k \<noteq> s"
    and "\<And>b. \<not> bag_mentions s (k, b) \<Longrightarrow> \<not> bag_mentions s (k, f b)"
    and "\<not> bag_mentions s (k, empty_bag)"
  shows "\<not> list_ex (bag_mentions s) (bag_update k f bs)"
  using assms(1)
proof (induction bs)
  case Nil
  from assms(3) [OF assms(4)] show ?case by simp
next
  case (Cons sb bs)
  obtain k' b where sb: "sb = (k', b)" by (cases sb)
  from Cons.prems have 1: "\<not> bag_mentions s (k', b)" and 2: "\<not> list_ex (bag_mentions s) bs"
    by (simp_all add: sb)
  show ?case
  proof (cases "k' = k")
    case True
    with 1 have "\<not> bag_mentions s (k, f b)" by (intro assms(3)) simp
    with 2 True show ?thesis by (simp add: sb)
  next
    case False
    with 1 Cons.IH [OF 2] show ?thesis by (simp add: sb)
  qed
qed

lemma addInternal_clean:
  assumes "\<not> list_ex (bag_mentions s) bs" and "ie_model e \<noteq> s"
  shows "\<not> list_ex (bag_mentions s) (addInternal e bs)"
  unfolding addInternal_def
  by (rule bag_update_clean [OF assms])
     (simp_all add: bag_mentions_def assms(2) empty_bag_def)

lemma fold_addInternal_clean:
  "\<not> list_ex (bag_mentions s) bs \<Longrightarrow> \<not> list_ex (\<lambda>e. ie_model e = s) es
     \<Longrightarrow> \<not> list_ex (bag_mentions s) (fold addInternal es bs)"
proof (induction es arbitrary: bs)
  case Nil
  then show ?case by simp
next
  case (Cons e es)
  from Cons.prems(2) have e: "ie_model e \<noteq> s" and es: "\<not> list_ex (\<lambda>e. ie_model e = s) es"
    by simp_all
  from Cons.prems(1) e have "\<not> list_ex (bag_mentions s) (addInternal e bs)"
    by (rule addInternal_clean)
  then show ?case using es by (simp add: Cons.IH)
qed

lemma popEvent_clean:
  assumes "\<not> table_mentions s et"
  shows "\<not> table_mentions s (popEvent et)"
proof (cases "topEvent et")
  case None
  with assms show ?thesis by (simp add: popEvent_def)
next
  case (Some t)
  from assms have i: "\<not> list_ex (\<lambda>e. ie_model e = s) (et_internalEventList et)"
    and o: "\<not> list_ex (\<lambda>e. oe_model e = s) (et_observationEventList et)"
    and b: "\<not> list_ex (bag_mentions s) (et_bags et)"
    and st: "\<not> list_ex (\<lambda>e. oe_model e = s) (et_states et)"
    by (simp_all add: table_mentions_def)
  from i have "\<not> list_ex (\<lambda>e. ie_model e = s)
                   (filter (\<lambda>e. ie_time e = t) (et_internalEventList et))"
    by (auto simp add: list_ex_iff)
  with b have "\<not> list_ex (bag_mentions s)
                   (fold addInternal (filter (\<lambda>e. ie_time e = t) (et_internalEventList et))
                      (et_bags et))"
    by (rule fold_addInternal_clean)
  with i o st show ?thesis
    by (auto simp add: popEvent_def Some table_mentions_def list_ex_iff)
qed

lemma purge_bag_clean: "k \<noteq> s \<Longrightarrow> \<not> bag_mentions s (k, purge_bag s b)"
  by (auto simp add: bag_mentions_def purge_bag_def list_ex_iff split: option.splits)

lemma delModelEvents_clean: "\<not> table_mentions s (delModelEvents s et)"
  by (auto simp add: table_mentions_def delModelEvents_def list_ex_iff purge_bag_clean)

lemma removeObservable_clean: "\<not> observes s (removeObservable s v)"
  by (auto simp add: observes_def removeObservable_def list_ex_iff)

section \<open>Lemmas on the notifications\<close>

lemma notify_world_append:
  "notify_world dyn sim t (xs @ ys) w = notify_world dyn sim t ys (notify_world dyn sim t xs w)"
  by (induction xs arbitrary: w) simp_all

lemma fold_notify_one:
  "fold (notify_one dyn sim t v) ps c
     = c\<lparr> world := notify_world dyn sim t (map (\<lambda>p. (v_name v, p)) ps) (world c),
           trace := trace c @ notification_log sim t (map (\<lambda>p. (v_name v, p)) ps) \<rparr>"
proof (induction ps arbitrary: c)
  case Nil
  show ?case by (simp add: notification_log_def)
next
  case (Cons p ps)
  show ?case
    by (simp add: Cons.IH)
       (simp add: notify_one_def Let_def logged_def notification_log_def notify_event_def)
qed

lemma fold_views:
  "fold (\<lambda>v. fold (notify_one dyn sim t v) (view_get sim v)) vs c
     = c\<lparr> world := notify_world dyn sim t
                      (concat (map (\<lambda>v. map (\<lambda>p. (v_name v, p)) (view_get sim v)) vs)) (world c),
           trace := trace c @ notification_log sim t
                      (concat (map (\<lambda>v. map (\<lambda>p. (v_name v, p)) (view_get sim v)) vs)) \<rparr>"
proof (induction vs arbitrary: c)
  case Nil
  show ?case by (simp add: notification_log_def)
next
  case (Cons v vs)
  let ?c1 = "fold (notify_one dyn sim t v) (view_get sim v) c"
  let ?subs = "\<lambda>vs. concat (map (\<lambda>v. map (\<lambda>p. (v_name v, p)) (view_get sim v)) vs)"
  have "fold (\<lambda>v. fold (notify_one dyn sim t v) (view_get sim v)) (v # vs) c
          = fold (\<lambda>v. fold (notify_one dyn sim t v) (view_get sim v)) vs ?c1"
    by simp
  also have "\<dots> = ?c1\<lparr> world := notify_world dyn sim t (?subs vs) (world ?c1),
                       trace := trace ?c1 @ notification_log sim t (?subs vs) \<rparr>"
    by (rule Cons.IH)
  also have "\<dots> = c\<lparr> world := notify_world dyn sim t (?subs (v # vs)) (world c),
                     trace := trace c @ notification_log sim t (?subs (v # vs)) \<rparr>"
    by (simp add: fold_notify_one notify_world_append notification_log_def)
  finally show ?case .
qed

lemma processEventView_spec:
  "processEventView dyn sim event c
     = c\<lparr> world := notify_world dyn sim
                      (case event of None \<Rightarrow> m_currentTime c | Some ev \<Rightarrow> ie_time ev)
                      (subscriptions c sim) (world c),
           trace := trace c @ notification_log sim
                      (case event of None \<Rightarrow> m_currentTime c | Some ev \<Rightarrow> ie_time ev)
                      (subscriptions c sim) \<rparr>"
  by (simp add: processEventView_def Let_def fold_views subscriptions_def)

lemma put_internal_opt_views:
  "m_viewList (put_internal_opt i c) = m_viewList c \<and> world (put_internal_opt i c) = world c"
  by (cases i) (simp_all add: put_internal_opt_def logged_def)

lemma processInternalEvent_full:
  assumes "bag_internal (current_bag c sim) = Some ev"
    and "processInternalEvent dyn sim c = Returns c'"
  shows "\<exists>c2 c3 c5 A C.
           apply_execs (fst (snd (sim_output dyn (world c) sim (m_currentTime c))))
             (logged [CallOutput sim (m_currentTime c)]
                ((bag_modify sim delInternal c)
                   \<lparr> world := snd (snd (sim_output dyn (world c) sim (m_currentTime c))) \<rparr>))
             = Returns c2
           \<and> c3 = dispatchExternalEvent (fst (sim_output dyn (world c) sim (m_currentTime c)))
                     sim c2
           \<and> apply_execs (fst (snd (sim_internalTransition dyn (world c3) sim ev)))
               (logged [CallInternalTransition sim ev]
                  (c3\<lparr> world := snd (snd (sim_internalTransition dyn (world c3) sim ev)) \<rparr>))
               = Returns c5
           \<and> new_actions c c'
               = [CallOutput sim (m_currentTime c)] @ A
                 @ routing_log c2 sim (fst (sim_output dyn (world c) sim (m_currentTime c)))
                 @ [CallInternalTransition sim ev] @ C
                 @ put_internal_action (fst (sim_internalTransition dyn (world c3) sim ev))
                 @ notification_log sim (ie_time ev) (subscriptions c5 sim)
           \<and> list_all is_clear A
           \<and> list_all is_clear C
           \<and> (\<forall>e\<in>set (fst (sim_output dyn (world c) sim (m_currentTime c))).
                 \<forall>d\<in>set (destinations c2 sim e). waiting_in c3 (routed_copy c2 sim e d))
           \<and> scheduled c' (fst (sim_internalTransition dyn (world c3) sim ev))
           \<and> world c' = notify_world dyn sim (ie_time ev) (subscriptions c5 sim) (world c5)"
proof -
  let ?c0 = "bag_modify sim delInternal c"
  let ?r = "sim_output dyn (world c) sim (m_currentTime c)"
  from assms(2) obtain ev' c3 c6 where
    0: "bag_internal (current_bag c sim) = Some ev'"
    and 1: "output_block dyn sim ?c0 = Returns c3"
    and 2: "internal_block dyn sim ev' c3 = Returns c6"
    and 3: "c' = processEventView dyn sim (Some ev') c6"
    by (rule processInternalEvent_Returns)
  from 0 assms(1) have ev: "ev' = ev" by simp
  have c0: "trace ?c0 = trace c" "m_currentTime ?c0 = m_currentTime c" "world ?c0 = world c"
    by (simp_all add: bag_modify_def)
  let ?c1 = "logged [CallOutput sim (m_currentTime c)] (?c0\<lparr> world := snd (snd ?r) \<rparr>)"
  from 1 obtain c2 where
    e1: "apply_execs (fst (snd ?r)) ?c1 = Returns c2"
    and d3: "c3 = dispatchExternalEvent (fst ?r) sim c2"
    unfolding output_block_def Let_def c0 by (auto dest: obind_Returns)
  from callback_trace [OF e1] obtain A where
    t2: "trace c2 = trace c @ [CallOutput sim (m_currentTime c)] @ A"
    and A: "list_all is_clear A"
    unfolding c0 by blast
  from dispatchExternalEvent_facts [of c2 "fst ?r" sim]
  have t3: "trace c3 = trace c2 @ routing_log c2 sim (fst ?r)"
    and w3: "\<forall>e\<in>set (fst ?r). \<forall>d\<in>set (destinations c2 sim e).
               waiting_in c3 (routed_copy c2 sim e d)"
    unfolding d3 routing_log_def by simp_all
  let ?i = "sim_internalTransition dyn (world c3) sim ev"
  let ?c4 = "logged [CallInternalTransition sim ev] (c3\<lparr> world := snd (snd ?i) \<rparr>)"
  from 2 obtain c5 where
    e2: "apply_execs (fst (snd ?i)) ?c4 = Returns c5"
    and d6: "c6 = put_internal_opt (fst ?i) c5"
    unfolding internal_block_def Let_def ev by (auto dest: obind_Returns)
  from callback_trace [OF e2] obtain C where
    t5: "trace c5 = trace c3 @ [CallInternalTransition sim ev] @ C"
    and C: "list_all is_clear C"
    by blast
  from put_internal_opt_facts [of "fst ?i" c5]
  have t6: "trace c6 = trace c5 @ put_internal_action (fst ?i)" and s6: "scheduled c6 (fst ?i)"
    unfolding d6 by simp_all
  from put_internal_opt_views [of "fst ?i" c5]
  have v6: "m_viewList c6 = m_viewList c5" and w6: "world c6 = world c5"
    unfolding d6 by simp_all
  have sub: "subscriptions c6 sim = subscriptions c5 sim"
    by (simp add: subscriptions_def m_eventViewList_def v6)
  have c': "c' = c6\<lparr> world := notify_world dyn sim (ie_time ev) (subscriptions c5 sim) (world c5),
                     trace := trace c6 @ notification_log sim (ie_time ev)
                                           (subscriptions c5 sim) \<rparr>"
    unfolding 3 ev by (simp add: processEventView_spec sub w6)
  have "trace c' = trace c @ ([CallOutput sim (m_currentTime c)] @ A
                 @ routing_log c2 sim (fst ?r)
                 @ [CallInternalTransition sim ev] @ C
                 @ put_internal_action (fst ?i)
                 @ notification_log sim (ie_time ev) (subscriptions c5 sim))"
    by (simp add: c' t6 t5 t3 t2)
  then have n: "new_actions c c' = [CallOutput sim (m_currentTime c)] @ A
                 @ routing_log c2 sim (fst ?r)
                 @ [CallInternalTransition sim ev] @ C
                 @ put_internal_action (fst ?i)
                 @ notification_log sim (ie_time ev) (subscriptions c5 sim)"
    by (rule new_actions_append)
  have e': "m_eventTable c' = m_eventTable c6" by (simp add: c')
  from s6 have s': "scheduled c' (fst ?i)" unfolding scheduled_def e' .
  have w': "world c' = notify_world dyn sim (ie_time ev) (subscriptions c5 sim) (world c5)"
    by (simp add: c')
  have "apply_execs (fst (snd ?r)) ?c1 = Returns c2
        \<and> c3 = dispatchExternalEvent (fst ?r) sim c2
        \<and> apply_execs (fst (snd ?i)) ?c4 = Returns c5
        \<and> new_actions c c' = [CallOutput sim (m_currentTime c)] @ A
                 @ routing_log c2 sim (fst ?r)
                 @ [CallInternalTransition sim ev] @ C
                 @ put_internal_action (fst ?i)
                 @ notification_log sim (ie_time ev) (subscriptions c5 sim)
        \<and> list_all is_clear A \<and> list_all is_clear C
        \<and> (\<forall>e\<in>set (fst ?r). \<forall>d\<in>set (destinations c2 sim e).
               waiting_in c3 (routed_copy c2 sim e d))
        \<and> scheduled c' (fst ?i)
        \<and> world c' = notify_world dyn sim (ie_time ev) (subscriptions c5 sim) (world c5)"
    using e1 d3 e2 n A C w3 s' w' by (intro conjI)
  then show ?thesis by blast
qed

section \<open>Lemmas on the turns of the loops\<close>

lemma bag_step_calls:
  assumes "bag_step dyn s c = Returns c'"
  shows "(list_ex is_confluent_call (new_actions c c')
            = (\<not> emptyInternal (current_bag c s) \<and> \<not> emptyExternal (current_bag c s)))
         \<and> (list_ex is_internal_call (new_actions c c')
            = (\<not> emptyInternal (current_bag c s)
               \<and> (emptyExternal (current_bag c s)
                  \<or> confluent_choice dyn c s = Some INTERNAL)))
         \<and> (list_ex is_external_call (new_actions c c')
            = (\<not> emptyExternal (current_bag c s)
               \<and> (emptyInternal (current_bag c s)
                  \<or> confluent_choice dyn c s = Some EXTERNAL)))
         \<and> (list_ex is_request_call (new_actions c c')
            = (emptyInternal (current_bag c s) \<and> emptyExternal (current_bag c s)
               \<and> \<not> emptyRequest (current_bag c s)))"
proof -
  let ?bag = "current_bag c s"
  let ?cl = "logged [CallConfluent s] c"
  from assms have s0: "s \<noteq> 0" by (auto simp add: bag_step_def Let_def split: if_splits)
  show ?thesis
  proof (cases "bag_internal ?bag")
    case None
    show ?thesis
    proof (cases "bag_externals ?bag = []")
      case True
      with None assms s0 have r: "processRequestEvents dyn s c = Returns c'"
        by (simp add: bag_step_def Let_def emptyInternal_def emptyExternal_def)
      from request_path_calls [OF r] obtain as where
        t: "trace c' = trace c @ as"
        and a: "\<not> list_ex is_internal_call as" "\<not> list_ex is_external_call as"
          "list_ex is_request_call as = (\<not> emptyRequest ?bag)"
          "\<not> list_ex is_confluent_call as"
        by blast
      from t have "new_actions c c' = as" by (rule new_actions_append)
      with a None True show ?thesis
        by (simp add: emptyInternal_def emptyExternal_def)
    next
      case False
      with None assms s0 have r: "processExternalEvents dyn s c = Returns c'"
        by (simp add: bag_step_def Let_def emptyInternal_def emptyExternal_def)
      from external_path_calls [OF r] obtain as where
        t: "trace c' = trace c @ as"
        and a: "\<not> list_ex is_internal_call as" "list_ex is_external_call as"
          "\<not> list_ex is_request_call as" "\<not> list_ex is_confluent_call as"
        by blast
      from t have "new_actions c c' = as" by (rule new_actions_append)
      with a None False show ?thesis
        by (simp add: emptyInternal_def emptyExternal_def)
    qed
  next
    case (Some ev)
    show ?thesis
    proof (cases "bag_externals ?bag = []")
      case True
      with Some assms s0 have r: "processInternalEvent dyn s c = Returns c'"
        by (simp add: bag_step_def Let_def emptyInternal_def emptyExternal_def)
      from internal_path_calls [OF r] obtain as where
        t: "trace c' = trace c @ as"
        and a: "list_ex is_internal_call as" "\<not> list_ex is_external_call as"
          "\<not> list_ex is_request_call as" "\<not> list_ex is_confluent_call as"
        by blast
      from t have "new_actions c c' = as" by (rule new_actions_append)
      with a Some True show ?thesis
        by (simp add: emptyInternal_def emptyExternal_def)
    next
      case False
      let ?ch = "sim_confluentTransitions dyn (world c) s ev (bag_externals ?bag)"
      from Some have ch: "confluent_choice dyn c s = Some ?ch"
        by (simp add: confluent_choice_def)
      show ?thesis
      proof (cases ?ch)
        case INTERNAL
        with Some False assms s0 have r: "processInternalEvent dyn s ?cl = Returns c'"
          by (simp add: bag_step_def Let_def emptyInternal_def emptyExternal_def)
        from internal_path_calls [OF r] obtain as where
          t: "trace c' = trace ?cl @ as"
          and a: "list_ex is_internal_call as" "\<not> list_ex is_external_call as"
            "\<not> list_ex is_request_call as" "\<not> list_ex is_confluent_call as"
          by blast
        from t have "trace c' = trace c @ (CallConfluent s # as)" by simp
        then have "new_actions c c' = CallConfluent s # as" by (rule new_actions_append)
        with a Some False ch INTERNAL show ?thesis
          by (simp add: emptyInternal_def emptyExternal_def)
      next
        case EXTERNAL
        with Some False assms s0 have r: "processExternalEvents dyn s ?cl = Returns c'"
          by (simp add: bag_step_def Let_def emptyInternal_def emptyExternal_def)
        from external_path_calls [OF r] obtain as where
          t: "trace c' = trace ?cl @ as"
          and a: "\<not> list_ex is_internal_call as" "list_ex is_external_call as"
            "\<not> list_ex is_request_call as" "\<not> list_ex is_confluent_call as"
          by blast
        from t have "trace c' = trace c @ (CallConfluent s # as)" by simp
        then have "new_actions c c' = CallConfluent s # as" by (rule new_actions_append)
        with a Some False ch EXTERNAL show ?thesis
          by (simp add: emptyInternal_def emptyExternal_def)
      qed
    qed
  qed
qed

lemma bag_step_turn_rule:
  assumes "bag_step dyn s c = Returns c'"
  shows "turn_rule dyn s c c'"
  unfolding turn_rule_def using assms by (rule bag_step_calls)

lemma bag_step_trace: "bag_step dyn s c = Returns c' \<Longrightarrow> trace c' = trace c @ new_actions c c'"
  by (rule extends_trace [of drain_action]) (simp add: frame_bag_step [unfolded frame_def])

lemma drain_bag_turns_ok: "list_all (turn_ok dyn) (drain_bag_turns n dyn s c)"
proof (induction n arbitrary: c)
  case 0
  show ?case by simp
next
  case (Suc n)
  show ?case
  proof (cases "bag_empty (current_bag c s)")
    case True
    then show ?thesis by simp
  next
    case False
    show ?thesis
    proof (cases "bag_step dyn s c")
      case (Returns c1)
      then have "turn_ok dyn (s, c, c1)"
        using False by (simp add: turn_ok_def bag_step_turn_rule)
      with Returns False Suc.IH [of c1] show ?thesis by simp
    next
      case (Throws e)
      with False show ?thesis by simp
    next
      case OutOfFuel
      with False show ?thesis by simp
    qed
  qed
qed

lemma drain_bag_turns_log:
  "drain_bag n dyn s c = Returns c'
     \<Longrightarrow> trace c' = trace c @ concat (map turn_log (drain_bag_turns n dyn s c))"
proof (induction n arbitrary: c)
  case 0
  then show ?case by simp
next
  case (Suc n)
  show ?case
  proof (cases "bag_empty (current_bag c s)")
    case True
    with Suc.prems show ?thesis by simp
  next
    case False
    with Suc.prems obtain c1 where 1: "bag_step dyn s c = Returns c1"
      and 2: "drain_bag n dyn s c1 = Returns c'"
      by (auto dest: obind_Returns)
    from Suc.IH [OF 2] bag_step_trace [OF 1] False 1 show ?thesis
      by (simp add: turn_log_def)
  qed
qed

lemma drain_bags_turns_ok: "list_all (turn_ok dyn) (drain_bags_turns n dyn c)"
proof (induction n arbitrary: c)
  case 0
  show ?case by simp
next
  case (Suc n)
  show ?case
  proof (cases "topBag (m_eventTable c)")
    case None
    then show ?thesis by simp
  next
    case (Some s)
    show ?thesis
    proof (cases "drain_bag n dyn s c")
      case (Returns c1)
      with Some drain_bag_turns_ok [of dyn n s c] Suc.IH [of c1] show ?thesis by simp
    next
      case (Throws e)
      with Some drain_bag_turns_ok [of dyn n s c] show ?thesis by simp
    next
      case OutOfFuel
      with Some drain_bag_turns_ok [of dyn n s c] show ?thesis by simp
    qed
  qed
qed

lemma drain_bags_turns_log:
  "drain_bags n dyn c = Returns c'
     \<Longrightarrow> trace c' = trace c @ concat (map turn_log (drain_bags_turns n dyn c))"
proof (induction n arbitrary: c)
  case 0
  then show ?case by simp
next
  case (Suc n)
  show ?case
  proof (cases "topBag (m_eventTable c)")
    case None
    with Suc.prems show ?thesis by simp
  next
    case (Some s)
    with Suc.prems obtain c1 where 1: "drain_bag n dyn s c = Returns c1"
      and 2: "drain_bags n dyn c1 = Returns c'"
      by (auto dest: obind_Returns)
    from Suc.IH [OF 2] drain_bag_turns_log [OF 1] Some 1 show ?thesis by simp
  qed
qed

section \<open>Two-phase deletion in run\<close>

text \<open>
  C1. After the bag being drained completes, \<^verbatim>\<open>run\<close> should destroy exactly the
  simulators that were on the pending-deletion list before the bag started. Evaluated on
  the small simulation: the first call of \<^verbatim>\<open>run\<close> (time 1) queues simulator 2 for
  deletion and leaves \<^verbatim>\<open>m_toDelete\<close> at 0; the second call (time 2) starts with simulator
  2 on the list, returns, and has destroyed nothing: simulator 2 is still on the list and
  \<^verbatim>\<open>m_toDelete\<close> is still 0.
\<close>

theorem run_keeps_pending_simulator:
  "(case run 10 demo_dyn demo_start of
      Returns c1 \<Rightarrow>
        m_deletedSimulator c1 = [2] \<and> m_toDelete c1 = 0 \<and> destroyed c1 = []
        \<and> (case run 10 demo_dyn c1 of
              Returns c2 \<Rightarrow>
                m_currentTime c2 = 2 \<and> destroyed c2 = []
                \<and> m_deletedSimulator c2 = [2] \<and> m_toDelete c2 = 0
            | Throws e \<Rightarrow> False
            | OutOfFuel \<Rightarrow> False)
    | Throws e \<Rightarrow> False
    | OutOfFuel \<Rightarrow> False)"
  by code_simp

section \<open>Observations after transitions\<close>



section \<open>The current time never goes back\<close>

text \<open>
  C7, as the code has it. Provided that the collaborators keep time (no callback answers
  an event scheduled before the time it was called with) and that, when the first call
  starts, the CompleteEventBagModel is clear and no pending event lies before the current
  time, any number of successive calls of \<^verbatim>\<open>run\<close> that return leave the current time at
  or after what it was, and keep that state of affairs; and a call of \<^verbatim>\<open>run\<close> whose
  popped CompleteEventBagModel is empty leaves the current time, the model table and the
  world of the models as they were.
\<close>

theorem current_time_monotone:
  "(causal dyn \<and> table_inv c \<and> runs k n dyn c = Returns c'
      \<longrightarrow> m_currentTime c \<le> m_currentTime c' \<and> table_inv c')
   \<and> (causal dyn \<and> table_inv c \<and> run n dyn c = Returns c1
      \<longrightarrow> m_currentTime c \<le> m_currentTime c1 \<and> table_inv c1)
   \<and> (bags_empty (popEvent (m_eventTable c)) \<and> run n dyn c = Returns c1
      \<longrightarrow> m_currentTime c1 = m_currentTime c \<and> m_modelList c1 = m_modelList c
          \<and> world c1 = world c)"
  using runs_time [of dyn c k n c'] run_time_step [of dyn c n c1] run_empty_bag [of c n dyn c1]
  by blast

theorem current_time_monotone_witness:
  "\<exists>c' c1 c2.
      runs 3 10 demo_dyn demo_start = Returns c'
      \<and> m_currentTime demo_start \<le> m_currentTime c' \<and> m_currentTime c' = 3
      \<and> run 10 demo_dyn demo_start = Returns c1
      \<and> m_currentTime demo_start \<le> m_currentTime c1
      \<and> run 1 demo_dyn demo_idle = Returns c2
      \<and> m_currentTime c2 = m_currentTime demo_idle
      \<and> m_modelList c2 = m_modelList demo_idle"
proof -
  have cd: "causal demo_dyn"
    by (simp add: causal_def demo_dyn_def later_internal_def later_observation_def)
  have ti: "table_inv demo_start" by code_simp
  have be: "bags_empty (popEvent (m_eventTable demo_idle))" by code_simp
  have "(case runs 3 10 demo_dyn demo_start of
           Returns c' \<Rightarrow> m_currentTime c' = 3 | Throws e \<Rightarrow> False | OutOfFuel \<Rightarrow> False)"
    by code_simp
  then obtain c' where h: "runs 3 10 demo_dyn demo_start = Returns c'"
    and t: "m_currentTime c' = 3"
    by (cases "runs 3 10 demo_dyn demo_start") simp_all
  have "returned (run 10 demo_dyn demo_start)" by code_simp
  then obtain c1 where h1: "run 10 demo_dyn demo_start = Returns c1"
    by (cases "run 10 demo_dyn demo_start") simp_all
  have "returned (run 1 demo_dyn demo_idle)" by code_simp
  then obtain c2 where h2: "run 1 demo_dyn demo_idle = Returns c2"
    by (cases "run 1 demo_dyn demo_idle") simp_all
  from current_time_monotone [of demo_dyn demo_start 3 10 c' c1] cd ti h h1
  have a: "m_currentTime demo_start \<le> m_currentTime c'"
    "m_currentTime demo_start \<le> m_currentTime c1" by simp_all
  from current_time_monotone [of demo_dyn demo_idle 0 1 demo_idle c2] be h2
  have b: "m_currentTime c2 = m_currentTime demo_idle"
    "m_modelList c2 = m_modelList demo_idle" by simp_all
  from h t h1 h2 a b show ?thesis by blast
qed

text \<open>
  Without the proviso the current time can go back: \<^verbatim>\<open>run\<close> takes the time of the
  earliest pending event whatever it is. In the small simulation with models whose
  internal transition answers an event five time units before the one it was called
  with, the first call of \<^verbatim>\<open>run\<close> moves the current time to 1 and the second moves it
  back to -4.
\<close>

theorem current_time_goes_back:
  "table_inv demo_start
   \<and> (case run 10 back_dyn demo_start of
        Returns c1 \<Rightarrow>
          m_currentTime c1 = 1
          \<and> (case run 10 back_dyn c1 of
                Returns c2 \<Rightarrow> m_currentTime c2 = - 4 \<and> m_currentTime c2 < m_currentTime c1
              | Throws e \<Rightarrow> False
              | OutOfFuel \<Rightarrow> False)
      | Throws e \<Rightarrow> False
      | OutOfFuel \<Rightarrow> False)"
  by code_simp

section \<open>The internal path\<close>

text \<open>
  C3. For a simulator whose bag holds an internal event, \<^verbatim>\<open>processInternalEvent\<close> logs,
  in this order and nothing else: the call of \<^verbatim>\<open>output\<close> at the current time; the
  executive calls made inside it, which lead to the state \<open>c2\<close>; the routing, in the
  graph of \<open>c2\<close>, of every event \<^verbatim>\<open>output\<close> answered (the put of one copy per
  destination, then the deletion of the event), after which every copy waits in the bag
  of its target; only then the call of the internal transition on the event taken from
  the bag; the executive calls made inside it, which lead to the state \<open>c5\<close>; the put of
  the internal event the transition answered, if it answered one, which is then pending
  in the event table; and last one notification for every subscription of an event view
  to the simulator, at the time of the internal event, in the order of the view names.
  The world at the end is the world in which the model has answered, and the view
  processed, each of these notifications.
\<close>

theorem processInternalEvent_order:
  assumes "bag_internal (current_bag c sim) = Some ev"
    and "processInternalEvent dyn sim c = Returns c'"
  shows "\<exists>c2 c3 c5 A C.
           apply_execs (fst (snd (sim_output dyn (world c) sim (m_currentTime c))))
             (logged [CallOutput sim (m_currentTime c)]
                ((bag_modify sim delInternal c)
                   \<lparr> world := snd (snd (sim_output dyn (world c) sim (m_currentTime c))) \<rparr>))
             = Returns c2
           \<and> c3 = dispatchExternalEvent (fst (sim_output dyn (world c) sim (m_currentTime c)))
                     sim c2
           \<and> apply_execs (fst (snd (sim_internalTransition dyn (world c3) sim ev)))
               (logged [CallInternalTransition sim ev]
                  (c3\<lparr> world := snd (snd (sim_internalTransition dyn (world c3) sim ev)) \<rparr>))
               = Returns c5
           \<and> new_actions c c'
               = [CallOutput sim (m_currentTime c)] @ A
                 @ routing_log c2 sim (fst (sim_output dyn (world c) sim (m_currentTime c)))
                 @ [CallInternalTransition sim ev] @ C
                 @ put_internal_action (fst (sim_internalTransition dyn (world c3) sim ev))
                 @ notification_log sim (ie_time ev) (subscriptions c5 sim)
           \<and> list_all is_clear A
           \<and> list_all is_clear C
           \<and> (\<forall>e\<in>set (fst (sim_output dyn (world c) sim (m_currentTime c))).
                 \<forall>d\<in>set (destinations c2 sim e). waiting_in c3 (routed_copy c2 sim e d))
           \<and> scheduled c' (fst (sim_internalTransition dyn (world c3) sim ev))
           \<and> world c' = notify_world dyn sim (ie_time ev) (subscriptions c5 sim) (world c5)"
  using assms by (rule processInternalEvent_full)

text \<open>
  On the small simulation, with the bags of time 1 popped: the executive's internal path
  calls \<^verbatim>\<open>output\<close>, puts the copy of the one event for the receiver and deletes the
  event, calls the internal transition, which deletes simulator 2, schedules the next
  internal event and notifies the event view, whose processing the world counts.
\<close>

theorem processInternalEvent_order_witness:
  "\<exists>c'. processInternalEvent demo_dyn 1 (pop_bags demo_start) = Returns c'
      \<and> (\<exists>c2 c3 c5 A C.
            c3 = dispatchExternalEvent
                   (fst (sim_output demo_dyn (world (pop_bags demo_start)) 1
                           (m_currentTime (pop_bags demo_start)))) 1 c2
            \<and> new_actions (pop_bags demo_start) c'
                = [CallOutput 1 (m_currentTime (pop_bags demo_start))] @ A
                  @ routing_log c2 1
                      (fst (sim_output demo_dyn (world (pop_bags demo_start)) 1
                              (m_currentTime (pop_bags demo_start))))
                  @ [CallInternalTransition 1 \<lparr> ie_time = 1, ie_model = 1 \<rparr>] @ C
                  @ put_internal_action
                      (fst (sim_internalTransition demo_dyn (world c3) 1
                              \<lparr> ie_time = 1, ie_model = 1 \<rparr>))
                  @ notification_log 1 (ie_time \<lparr> ie_time = 1, ie_model = 1 \<rparr>)
                      (subscriptions c5 1)
            \<and> list_all is_clear A \<and> list_all is_clear C
            \<and> world c' = notify_world demo_dyn 1 (ie_time \<lparr> ie_time = 1, ie_model = 1 \<rparr>)
                            (subscriptions c5 1) (world c5))
      \<and> trace c'
          = [CallOutput 1 1,
             PutExternal ((out_event 1)\<lparr> ee_model := 1, ee_target := 3, ee_targetPort := ''in'' \<rparr>),
             DeleteEvent ((out_event 1)\<lparr> ee_model := 1 \<rparr>),
             CallInternalTransition 1 \<lparr> ie_time = 1, ie_model = 1 \<rparr>,
             ClearSimulator 2,
             PutInternal \<lparr> ie_time = 2, ie_model = 1 \<rparr>,
             NotifyEventView ''event''
               \<lparr> oe_time = 1, oe_model = 1, oe_viewName = ''event'', oe_portName = ''state'' \<rparr>]
      \<and> world c' = 1"
proof -
  have b: "bag_internal (current_bag (pop_bags demo_start) 1)
             = Some \<lparr> ie_time = 1, ie_model = 1 \<rparr>"
    by code_simp
  have "(case processInternalEvent demo_dyn 1 (pop_bags demo_start) of
           Returns c' \<Rightarrow>
             trace c'
               = [CallOutput 1 1,
                  PutExternal ((out_event 1)\<lparr> ee_model := 1, ee_target := 3,
                                               ee_targetPort := ''in'' \<rparr>),
                  DeleteEvent ((out_event 1)\<lparr> ee_model := 1 \<rparr>),
                  CallInternalTransition 1 \<lparr> ie_time = 1, ie_model = 1 \<rparr>,
                  ClearSimulator 2,
                  PutInternal \<lparr> ie_time = 2, ie_model = 1 \<rparr>,
                  NotifyEventView ''event''
                    \<lparr> oe_time = 1, oe_model = 1, oe_viewName = ''event'',
                      oe_portName = ''state'' \<rparr>]
             \<and> world c' = 1
         | Throws e \<Rightarrow> False | OutOfFuel \<Rightarrow> False)"
    by code_simp
  then obtain c' where h: "processInternalEvent demo_dyn 1 (pop_bags demo_start) = Returns c'"
    and t: "trace c'
               = [CallOutput 1 1,
                  PutExternal ((out_event 1)\<lparr> ee_model := 1, ee_target := 3,
                                               ee_targetPort := ''in'' \<rparr>),
                  DeleteEvent ((out_event 1)\<lparr> ee_model := 1 \<rparr>),
                  CallInternalTransition 1 \<lparr> ie_time = 1, ie_model = 1 \<rparr>,
                  ClearSimulator 2,
                  PutInternal \<lparr> ie_time = 2, ie_model = 1 \<rparr>,
                  NotifyEventView ''event''
                    \<lparr> oe_time = 1, oe_model = 1, oe_viewName = ''event'',
                      oe_portName = ''state'' \<rparr>]"
    and w: "world c' = 1"
    by (cases "processInternalEvent demo_dyn 1 (pop_bags demo_start)") simp_all
  from processInternalEvent_order [OF b h] have
    "\<exists>c2 c3 c5 A C.
            c3 = dispatchExternalEvent
                   (fst (sim_output demo_dyn (world (pop_bags demo_start)) 1
                           (m_currentTime (pop_bags demo_start)))) 1 c2
            \<and> new_actions (pop_bags demo_start) c'
                = [CallOutput 1 (m_currentTime (pop_bags demo_start))] @ A
                  @ routing_log c2 1
                      (fst (sim_output demo_dyn (world (pop_bags demo_start)) 1
                              (m_currentTime (pop_bags demo_start))))
                  @ [CallInternalTransition 1 \<lparr> ie_time = 1, ie_model = 1 \<rparr>] @ C
                  @ put_internal_action
                      (fst (sim_internalTransition demo_dyn (world c3) 1
                              \<lparr> ie_time = 1, ie_model = 1 \<rparr>))
                  @ notification_log 1 (ie_time \<lparr> ie_time = 1, ie_model = 1 \<rparr>)
                      (subscriptions c5 1)
            \<and> list_all is_clear A \<and> list_all is_clear C
            \<and> world c' = notify_world demo_dyn 1 (ie_time \<lparr> ie_time = 1, ie_model = 1 \<rparr>)
                            (subscriptions c5 1) (world c5)"
    by blast
  with h t w show ?thesis by blast
qed

section \<open>Which path a bag takes\<close>

text \<open>
  C4, as the code has it. In a call of \<^verbatim>\<open>run\<close> that returns, every turn of the loop on
  a simulator's bag follows the rule of the turn: \<^verbatim>\<open>confluentTransitions\<close> is called
  exactly when an internal event and external events are both pending, and on that turn
  the internal path runs exactly when it answers \<^verbatim>\<open>INTERNAL\<close> and the external path
  exactly when it answers \<^verbatim>\<open>EXTERNAL\<close>; with only an internal event pending the internal
  path runs; with only external events pending the external path runs; and requests are
  processed exactly on a turn where neither is left in the bag and requests are. The
  turns are all that the loops of \<^verbatim>\<open>run\<close> do: their logs, in order, make up the log of
  the transition phase.
\<close>

theorem run_turns_paths:
  assumes "run n dyn c = Returns c'"
  shows "list_all (turn_ok dyn) (run_turns n dyn c)
         \<and> (\<exists>c3. drain_bags n dyn (pop_bags c) = Returns c3
                \<and> new_actions c c3 = concat (map turn_log (run_turns n dyn c)))"
proof -
  from assms obtain c3 where 1: "drain_bags n dyn (pop_bags c) = Returns c3"
    by (rule run_Returns)
  from drain_bags_turns_log [OF 1]
  have "trace c3 = trace c @ concat (map turn_log (run_turns n dyn c))"
    by (simp add: run_turns_def)
  then have "new_actions c c3 = concat (map turn_log (run_turns n dyn c))"
    by (rule new_actions_append)
  with 1 drain_bags_turns_ok [of dyn n "pop_bags c"] show ?thesis
    by (auto simp add: run_turns_def)
qed

text \<open>
  On the small simulation the call of \<^verbatim>\<open>run\<close> at time 1 takes three turns: one on the
  bag of the executive, two on the bag of the receiver.
\<close>

theorem run_turns_paths_witness:
  "\<exists>c'. run 10 demo_dyn demo_start = Returns c'
      \<and> list_all (turn_ok demo_dyn) (run_turns 10 demo_dyn demo_start)
      \<and> map fst (run_turns 10 demo_dyn demo_start) = [1, 3, 3]"
proof -
  have "returned (run 10 demo_dyn demo_start)" by code_simp
  then obtain c' where h: "run 10 demo_dyn demo_start = Returns c'"
    by (cases "run 10 demo_dyn demo_start") simp_all
  have m: "map fst (run_turns 10 demo_dyn demo_start) = [1, 3, 3]" by code_simp
  from run_turns_paths [OF h]
  have l: "list_all (turn_ok demo_dyn) (run_turns 10 demo_dyn demo_start)" by (rule conjunct1)
  from h l m show ?thesis by (intro exI [of _ c'] conjI)
qed

text \<open>
  Over the whole bag the rule does not hold. In the small simulation, once the
  executive has been served at time 1, the bag of the receiver (simulator 3) holds its
  internal event and the external event routed to it. Its model answers \<^verbatim>\<open>EXTERNAL\<close>:
  the loop on the bag runs the external path, which deletes the externals only, and on
  its next turn the internal path. With models that answer \<^verbatim>\<open>INTERNAL\<close> the loop runs
  the internal path, which deletes the internal event only, and then the external path.
  The answer decides which path runs first; the bag is drained either way.
\<close>

theorem drained_bag_runs_both_paths:
  "(case bag_step demo_dyn 1 (pop_bags demo_start) of
      Returns c1 \<Rightarrow>
        \<not> emptyInternal (current_bag c1 3) \<and> \<not> emptyExternal (current_bag c1 3)
        \<and> confluent_choice demo_dyn c1 3 = Some EXTERNAL
        \<and> (case drain_bag 10 demo_dyn 3 c1 of
              Returns c2 \<Rightarrow>
                new_actions c1 c2
                  = [CallConfluent 3, CallExternalTransition 3 1, CallOutput 3 1,
                     CallInternalTransition 3 \<lparr> ie_time = 1, ie_model = 3 \<rparr>,
                     PutInternal \<lparr> ie_time = 2, ie_model = 3 \<rparr>]
                \<and> list_ex is_internal_call (new_actions c1 c2)
            | Throws e \<Rightarrow> False
            | OutOfFuel \<Rightarrow> False)
    | Throws e \<Rightarrow> False
    | OutOfFuel \<Rightarrow> False)
   \<and> (case bag_step demo_internal_dyn 1 (pop_bags demo_start) of
      Returns c1 \<Rightarrow>
        \<not> emptyInternal (current_bag c1 3) \<and> \<not> emptyExternal (current_bag c1 3)
        \<and> confluent_choice demo_internal_dyn c1 3 = Some INTERNAL
        \<and> (case drain_bag 10 demo_internal_dyn 3 c1 of
              Returns c2 \<Rightarrow>
                new_actions c1 c2
                  = [CallConfluent 3, CallOutput 3 1,
                     CallInternalTransition 3 \<lparr> ie_time = 1, ie_model = 3 \<rparr>,
                     PutInternal \<lparr> ie_time = 2, ie_model = 3 \<rparr>,
                     CallExternalTransition 3 1]
                \<and> list_ex is_external_call (new_actions c1 c2)
            | Throws e \<Rightarrow> False
            | OutOfFuel \<Rightarrow> False)
    | Throws e \<Rightarrow> False
    | OutOfFuel \<Rightarrow> False)"
  by code_simp

section \<open>Routing\<close>

text \<open>
  C5. \<^verbatim>\<open>dispatchExternalEvent\<close> on the events a simulator emitted: the events put into
  the event table are, in order, one fresh copy per structural destination of each
  event; a copy is the event with its source set to the emitting simulator and bound to
  the destination's simulator and port, so it carries the time of the original and is a
  request exactly when the original is; it is put as a request event or as an external
  event accordingly, and it waits in the bag of its target for the current instant; and
  every original event is deleted, once.
\<close>

theorem dispatchExternalEvent_routes:
  "put_events_in (new_actions c (dispatchExternalEvent es sim c))
     = concat (map (\<lambda>ev. map (routed_copy c sim ev) (destinations c sim ev)) es)
   \<and> deleted_in (new_actions c (dispatchExternalEvent es sim c))
     = map (\<lambda>ev. ev\<lparr> ee_model := sim \<rparr>) es
   \<and> (\<forall>ev\<in>set es. \<forall>d\<in>set (destinations c sim ev).
        routed_copy c sim ev d
          = ev\<lparr> ee_model := sim, ee_target := getModel c (fst d), ee_targetPort := snd d \<rparr>
        \<and> ee_time (routed_copy c sim ev d) = ee_time ev
        \<and> ee_isRequest (routed_copy c sim ev d) = ee_isRequest ev
        \<and> put_action (routed_copy c sim ev d)
             \<in> set (new_actions c (dispatchExternalEvent es sim c))
        \<and> waiting_in (dispatchExternalEvent es sim c) (routed_copy c sim ev d))"
proof -
  let ?c' = "dispatchExternalEvent es sim c"
  let ?as = "concat (map (\<lambda>ev. map (\<lambda>d. put_action (routed_copy c sim ev d))
                                   (destinations c sim ev)
                               @ [DeleteEvent (ev\<lparr> ee_model := sim \<rparr>)]) es)"
  from dispatchExternalEvent_facts [of c es sim]
  have t: "trace ?c' = trace c @ ?as"
    and w: "\<forall>ev\<in>set es. \<forall>d\<in>set (destinations c sim ev).
              waiting_in ?c' (routed_copy c sim ev d)"
    by simp_all
  from t have n: "new_actions c ?c' = ?as" by (rule new_actions_append)
  from routing_trace [of "routed_copy c sim" "destinations c sim"
                         "\<lambda>ev. ev\<lparr> ee_model := sim \<rparr>" es]
  have p: "put_events_in ?as = concat (map (\<lambda>ev. map (routed_copy c sim ev)
                                                  (destinations c sim ev)) es)"
    and d: "deleted_in ?as = map (\<lambda>ev. ev\<lparr> ee_model := sim \<rparr>) es"
    by simp_all
  have m: "\<forall>ev\<in>set es. \<forall>d\<in>set (destinations c sim ev).
             put_action (routed_copy c sim ev d) \<in> set ?as"
    by auto
  have r: "\<And>ev d. routed_copy c sim ev d
          = ev\<lparr> ee_model := sim, ee_target := getModel c (fst d), ee_targetPort := snd d \<rparr>"
    by (simp add: routed_copy_def copy_event_def)
  show ?thesis unfolding n using p d m w by (simp add: r)
qed

theorem dispatchExternalEvent_routes_witness:
  "put_events_in (new_actions demo_start (dispatchExternalEvent [out_event 1] 1 demo_start))
     = [(out_event 1)\<lparr> ee_model := 1, ee_target := 3, ee_targetPort := ''in'' \<rparr>]
   \<and> deleted_in (new_actions demo_start (dispatchExternalEvent [out_event 1] 1 demo_start))
     = [(out_event 1)\<lparr> ee_model := 1 \<rparr>]
   \<and> waiting_in (dispatchExternalEvent [out_event 1] 1 demo_start)
        ((out_event 1)\<lparr> ee_model := 1, ee_target := 3, ee_targetPort := ''in'' \<rparr>)
   \<and> ee_time ((out_event 1)\<lparr> ee_model := 1, ee_target := 3, ee_targetPort := ''in'' \<rparr>) = 1"
proof -
  have d: "destinations demo_start 1 (out_event 1) = [(13, ''in'')]" by code_simp
  have g: "getModel demo_start 13 = 3" by code_simp
  have t: "ee_time (out_event 1) = 1" by (simp add: out_event_def)
  have r: "routed_copy demo_start 1 (out_event 1) (13, ''in'')
             = (out_event 1)\<lparr> ee_model := 1, ee_target := 3, ee_targetPort := ''in'' \<rparr>"
    by (simp add: routed_copy_def copy_event_def g)
  from dispatchExternalEvent_routes [of demo_start "[out_event 1]" 1]
  show ?thesis
    by (simp add: d [unfolded One_nat_def] r [unfolded One_nat_def] t g)
qed

section \<open>Deleting an atomic model\<close>

text \<open>
  For an atomic model \<open>M\<close> with simulator \<open>S\<close>, a call of \<^verbatim>\<open>delModel\<close> that returns has
  taken \<open>M\<close> out of the model table, detached \<open>S\<close> from every view, deleted every
  event of the event table that mentions \<open>S\<close>, cleared \<open>S\<close> and appended it to the
  pending-deletion list; the event table mentions \<open>S\<close> nowhere when the call returns,
  and neither does the CompleteEventBagModel popped from the table as the call leaves it.
\<close>

lemma delModel_effects:
  assumes "m_modelList c M = Some S" and "delModel M c = Returns c'"
  shows "m_modelList c' = (m_modelList c)(M := None)
         \<and> \<not> list_ex (observes S) (m_viewList c')
         \<and> \<not> table_mentions S (m_eventTable c')
         \<and> new_actions c c' = [ClearSimulator S]
         \<and> m_deletedSimulator c' = m_deletedSimulator c @ [S]
         \<and> \<not> table_mentions S (popEvent (m_eventTable c'))"
proof -
  from assms have c': "c' = c\<lparr> m_modelList := (m_modelList c)(M := None),
                 m_viewList := map (removeObservable S) (m_viewList c),
                 m_eventTable := delModelEvents S (m_eventTable c),
                 m_deletedSimulator := m_deletedSimulator c @ [S],
                 connections := graph_delModel M (connections c),
                 trace := trace c @ [ClearSimulator S] \<rparr>"
    by (auto simp add: delModel_def delAtomicModel_def split: if_splits)
  have v: "\<not> list_ex (observes S) (map (removeObservable S) (m_viewList c))"
    by (simp add: list_ex_iff removeObservable_clean)
  have t: "\<not> table_mentions S (delModelEvents S (m_eventTable c))"
    by (rule delModelEvents_clean)
  from t have p: "\<not> table_mentions S (popEvent (delModelEvents S (m_eventTable c)))"
    by (rule popEvent_clean)
  from v t p show ?thesis by (simp add: c' new_actions_def)
qed

lemma delModel_effects_demo:
  "\<exists>c'. delModel 12 demo_start = Returns c'
      \<and> m_modelList c' 12 = None
      \<and> \<not> table_mentions 2 (m_eventTable c')
      \<and> new_actions demo_start c' = [ClearSimulator 2]
      \<and> m_deletedSimulator c' = m_deletedSimulator demo_start @ [2]
      \<and> \<not> table_mentions 2 (popEvent (m_eventTable c'))
      \<and> table_mentions 2 (m_eventTable demo_start)"
proof -
  have m: "m_modelList demo_start 12 = Some 2" by code_simp
  have b: "table_mentions 2 (m_eventTable demo_start)" by code_simp
  have "returned (delModel 12 demo_start)" by code_simp
  then obtain c' where h: "delModel 12 demo_start = Returns c'"
    by (cases "delModel 12 demo_start") simp_all
  from delModel_effects [OF m h] h b show ?thesis by auto
qed

text \<open>
  C6. After \<^verbatim>\<open>delModel\<close> on the atomic model of simulator \<open>S\<close> has removed \<open>S\<close> from
  the model table, detached it from the views, deleted its events, cleared it and queued
  it for deletion, no bag popped later should hold an event referencing \<open>S\<close>.
  Evaluated on the simulation of the model that deletes itself: \<^verbatim>\<open>run\<close> at time 1 calls
  the internal transition of simulator 1, which calls \<^verbatim>\<open>delModel\<close> on its own node, so
  simulator 1 is cleared, leaves the model table and is queued for deletion. The
  transition then answers its next internal event, which \<^verbatim>\<open>processInternalEvent\<close> puts
  into the event table all the same; the bag popped by the next call of \<^verbatim>\<open>run\<close> holds
  that event of simulator 1, and that call runs the callbacks of the cleared simulator
  again.
\<close>

theorem deleted_simulator_in_later_bag:
  "(case run 10 selfdel_dyn selfdel_start of
      Returns c1 \<Rightarrow>
        trace c1 = [CallOutput 1 1, DeleteEvent ((out_event 1)\<lparr> ee_model := 1 \<rparr>),
                    CallInternalTransition 1 \<lparr> ie_time = 1, ie_model = 1 \<rparr>,
                    ClearSimulator 1, PutInternal \<lparr> ie_time = 2, ie_model = 1 \<rparr>]
        \<and> m_modelList c1 11 = None
        \<and> m_deletedSimulator c1 = [1]
        \<and> table_mentions 1 (popEvent (m_eventTable c1))
        \<and> bag_internal (bag_of 1 (et_bags (popEvent (m_eventTable c1))))
            = Some \<lparr> ie_time = 2, ie_model = 1 \<rparr>
        \<and> (case run 10 selfdel_dyn c1 of
              Returns c2 \<Rightarrow>
                list_ex (\<lambda>a. a = CallInternalTransition 1 \<lparr> ie_time = 2, ie_model = 1 \<rparr>)
                  (new_actions c1 c2)
            | Throws e \<Rightarrow> False
            | OutOfFuel \<Rightarrow> False)
    | Throws e \<Rightarrow> False
    | OutOfFuel \<Rightarrow> False)"
  by code_simp

end
